theory Spec2Isabelle
  imports Main "HOL-Library.Word"
begin

unbundle bit_operations_syntax

section \<open>Bytes and big integers\<close>

text \<open>
  Go byte slices are lists of 8-bit words.  The functions of \<^verbatim>\<open>math/big\<close> that the
  package calls are modelled on \<^typ>\<open>int\<close>: \<^verbatim>\<open>SetBytes\<close> reads a big-endian slice as an
  unsigned integer, \<^verbatim>\<open>Bytes\<close> returns the absolute value as a big-endian slice without
  leading zero bytes, \<^verbatim>\<open>Sign\<close> is the sign and \<^verbatim>\<open>Div\<close> is Euclidean division.
\<close>

type_synonym byte = "8 word"

definition big_SetBytes :: "byte list \<Rightarrow> int" where
  "big_SetBytes bs = foldl (\<lambda>acc b. acc * 256 + uint b) 0 bs"

function nat_bytes :: "nat \<Rightarrow> byte list" where
  "nat_bytes n = (if n = 0 then [] else nat_bytes (n div 256) @ [of_nat (n mod 256)])"
  by pat_completeness auto
termination
  by (relation "measure id") auto

declare nat_bytes.simps [simp del]

definition big_Bytes :: "int \<Rightarrow> byte list" where
  "big_Bytes x = nat_bytes (nat \<bar>x\<bar>)"

definition big_Sign :: "int \<Rightarrow> int" where
  "big_Sign x = (if x < 0 then - 1 else if x = 0 then 0 else 1)"

definition big_Div :: "int \<Rightarrow> int \<Rightarrow> int" where
  "big_Div x y = (if 0 < y then x div y else - (x div (- y)))"

section \<open>Curve parameters\<close>

text \<open>\<^verbatim>\<open>curveParams\<close> of ellipticadaptor.go, taken from [SECG] section 2.4.1.\<close>

definition fieldPrime :: int where
  "fieldPrime = 0xfffffffffffffffffffffffffffffffffffffffffffffffffffffffefffffc2f"

definition curveN :: int where
  "curveN = 0xfffffffffffffffffffffffffffffffebaaedce6af48a03bbfd25e8cd0364141"

definition curveGx :: int where
  "curveGx = 0x79be667ef9dcbbac55a06295ce870b07029bfcdb2dce28d959f2815b16f81798"

definition curveGy :: int where
  "curveGy = 0x483ada7726a3c4655da4fbfc0e1108a8fd17b448a68554199c47d08ffb10d4b8"

text \<open>The endomorphism constants of curve.go.\<close>

definition endomorphismLambda :: int where
  "endomorphismLambda = 0x5363ad4cc05c30e0a5261c028812645a122e22ea20816678df02967c1b23bd72"

definition endomorphismBeta :: int where
  "endomorphismBeta = 0x7ae96a2b657c07106e64479eac3434e99cf0497512f58995c1396c28719501ee"

definition endomorphismA1 :: int where
  "endomorphismA1 = 0x3086d221a7d46bcde86c90e49284eb15"

definition endomorphismB1 :: int where
  "endomorphismB1 = - 0xe4437ed6010e88286f547fa90abfe4c3"

definition endomorphismA2 :: int where
  "endomorphismA2 = 0x114ca50f7a8e2f3f657c1108d9d44cfd8"

definition endomorphismB2 :: int where
  "endomorphismB2 = 0x3086d221a7d46bcde86c90e49284eb15"

section \<open>Balanced length-two representation\<close>

text \<open>
  \<^verbatim>\<open>splitK\<close> of curve.go: the two quotients are taken without rounding, the byte
  slices returned drop the signs, which are returned separately.
\<close>

definition splitK :: "byte list \<Rightarrow> byte list \<times> byte list \<times> int \<times> int" where
  "splitK k =
     (let bigIntK = big_SetBytes k;
          c1 = big_Div (endomorphismB2 * bigIntK) curveN;
          c2 = big_Div (endomorphismB1 * bigIntK) curveN;
          k1 = bigIntK - c1 * endomorphismA1 + c2 * endomorphismA2;
          k2 = c2 * endomorphismB2 - c1 * endomorphismB1
      in (big_Bytes k1, big_Bytes k2, big_Sign k1, big_Sign k2))"

section \<open>Non-adjacent form\<close>

text \<open>
  \<^verbatim>\<open>nafScalar\<close> and \<^verbatim>\<open>naf\<close> of curve.go.  The two 33-byte arrays are lists of
  length 33; \<^verbatim>\<open>Pos\<close> and \<^verbatim>\<open>Neg\<close> are the slices \<^verbatim>\<open>[start:end]\<close> of them.  The body of
  the loop is \<open>naf_byte\<close>: it works on 16-bit values, the shift of the next byte is
  done on 8 bits as in the source.  The loop runs \<open>byteNum\<close> from \<open>kLen - 1\<close> down
  to 0.  With more than 32 bytes left after stripping, the first store of the loop is
  outside the arrays and the Go code panics: that is the result \<open>None\<close>.
\<close>

record nafScalar =
  pos :: "byte list"
  start :: byte
  end' :: byte
  neg :: "byte list"

definition nafScalar_Pos :: "nafScalar \<Rightarrow> byte list" where
  "nafScalar_Pos s = drop (unat (start s)) (take (unat (end' s)) (pos s))"

definition nafScalar_Neg :: "nafScalar \<Rightarrow> byte list" where
  "nafScalar_Neg s = drop (unat (start s)) (take (unat (end' s)) (neg s))"

definition naf_byte :: "byte \<Rightarrow> byte \<Rightarrow> byte \<Rightarrow> byte \<times> byte \<times> byte" where
  "naf_byte kb carry nextWord =
     (let kc = (ucast kb :: 16 word) + ucast carry;
          halfK = drop_bit 1 kc OR ucast (push_bit 7 nextWord :: byte);
          threeHalfK = kc + halfK;
          nonZeroResultDigits = threeHalfK XOR halfK
      in (ucast (threeHalfK AND nonZeroResultDigits),
          ucast (halfK AND nonZeroResultDigits),
          ucast (drop_bit 8 threeHalfK)))"

definition naf_step :: "byte list \<Rightarrow> nat \<Rightarrow> byte list \<times> byte list \<times> byte \<Rightarrow> byte list \<times> byte list \<times> byte" where
  "naf_step k byteNum st =
     (case st of (p, n, carry) \<Rightarrow>
        (case naf_byte (k ! byteNum) carry (if byteNum > 0 then k ! (byteNum - 1) else 0) of
           (pb, nb, carry') \<Rightarrow> (p[byteNum + 1 := pb], n[byteNum + 1 := nb], carry')))"

fun naf_loop :: "byte list \<Rightarrow> nat \<Rightarrow> byte list \<times> byte list \<times> byte \<Rightarrow> byte list \<times> byte list \<times> byte" where
  "naf_loop k 0 st = st"
| "naf_loop k (Suc byteNum) st = naf_loop k byteNum (naf_step k byteNum st)"

definition naf :: "byte list \<Rightarrow> nafScalar option" where
  "naf k0 =
     (let k = dropWhile (\<lambda>b. b = 0) k0;
          kLen = length k
      in if kLen > 32 then None
         else (case naf_loop k kLen (replicate 33 0, replicate 33 0, 0) of
                 (p, n, carry) \<Rightarrow>
                   Some \<lparr> pos = p[0 := carry], start = 1 - carry,
                          end' = of_nat (kLen + 1), neg = n \<rparr>))"

text \<open>
  The loop seen as a function on lists: the bytes are consumed from the least
  significant one, \<open>prev\<close> is the byte to the left of the current one.  The digits
  that \<open>naf\<close> produces for a value \<open>x\<close> with incoming carry \<open>c\<close> are the set bits
  of \<open>naf_digits c x\<close>.
\<close>

fun naf_list :: "byte \<Rightarrow> byte list \<Rightarrow> byte list \<times> byte list \<times> byte" where
  "naf_list prev [] = ([], [], 0)"
| "naf_list prev (kb # rest) =
     (case naf_list kb rest of (Pl, Nl, c) \<Rightarrow>
        (case naf_byte kb c prev of (pb, nb, c') \<Rightarrow> (pb # Pl, nb # Nl, c')))"

definition naf_digits :: "nat \<Rightarrow> nat \<Rightarrow> nat" where
  "naf_digits c x = (x + x div 2 + c) XOR (x div 2)"

definition no_adjacent :: "int \<Rightarrow> bool" where
  "no_adjacent m = (\<forall>i. \<not> (bit m i \<and> bit m (Suc i)))"

definition prevbyte :: "byte list \<Rightarrow> nat \<Rightarrow> byte" where
  "prevbyte k j = (if j > 0 then k ! (j - 1) else 0)"

section \<open>Scalars modulo the group order\<close>

text \<open>
  Modelled from the spec: the type \<^verbatim>\<open>ModNScalar\<close> and its methods (modnscalar.go is
  not under src/).  The spec: eight 32-bit limbs, always reduced mod n after every
  public operation; \<^verbatim>\<open>SetByteSlice\<close> accepts any length, truncates or zero-extends to
  32 bytes (big-endian input) and signals overflow when the value was \<open>\<ge> n\<close>;
  \<^verbatim>\<open>IsOverHalfOrder\<close> compares against \<open>\<lfloor>n/2\<rfloor>\<close>; the external encoding is 32-byte
  big-endian.  A scalar is modelled by its value in \<open>[0, n)\<close>.  The truncation keeps the
  first 32 bytes, as the tests of the nonce code under src/ do for the hash.
\<close>

type_synonym ModNScalar = int

fun be_bytes :: "nat \<Rightarrow> int \<Rightarrow> byte list" where
  "be_bytes 0 x = []"
| "be_bytes (Suc n) x = be_bytes n (x div 256) @ [of_int x]"

definition ModNScalar_SetByteSlice :: "byte list \<Rightarrow> ModNScalar \<times> bool" where
  "ModNScalar_SetByteSlice b =
     (let x = big_SetBytes (take 32 b) in (x mod curveN, curveN \<le> x))"

definition ModNScalar_SetBytes :: "byte list \<Rightarrow> ModNScalar \<times> 32 word" where
  "ModNScalar_SetBytes b =
     (let x = big_SetBytes (take 32 b) in (x mod curveN, if curveN \<le> x then 1 else 0))"

definition ModNScalar_PutBytesUnchecked :: "ModNScalar \<Rightarrow> byte list" where
  "ModNScalar_PutBytesUnchecked x = be_bytes 32 x"

definition ModNScalar_Bytes :: "ModNScalar \<Rightarrow> byte list" where
  "ModNScalar_Bytes x = be_bytes 32 x"

definition ModNScalar_IsZero :: "ModNScalar \<Rightarrow> bool" where
  "ModNScalar_IsZero x = (x = 0)"

definition ModNScalar_IsOverHalfOrder :: "ModNScalar \<Rightarrow> bool" where
  "ModNScalar_IsOverHalfOrder x = (curveN div 2 < x)"

definition ModNScalar_Negate :: "ModNScalar \<Rightarrow> ModNScalar" where
  "ModNScalar_Negate x = (- x) mod curveN"

definition ModNScalar_Add :: "ModNScalar \<Rightarrow> ModNScalar \<Rightarrow> ModNScalar" where
  "ModNScalar_Add x y = (x + y) mod curveN"

definition ModNScalar_Mul2 :: "ModNScalar \<Rightarrow> ModNScalar \<Rightarrow> ModNScalar" where
  "ModNScalar_Mul2 x y = (x * y) mod curveN"

text \<open>
  The inverse is the multiplicative inverse modulo the prime n (and 0 for 0), written
  here as the power \<open>n - 2\<close>.
\<close>

definition ModNScalar_InverseValNonConst :: "ModNScalar \<Rightarrow> ModNScalar" where
  "ModNScalar_InverseValNonConst x = (x ^ nat (curveN - 2)) mod curveN"

section \<open>Signatures and their encodings\<close>

text \<open>
  The error kinds of the signature code, and \<^verbatim>\<open>Signature\<close> of signature.go.  The fields
  \<^verbatim>\<open>r\<close>, \<^verbatim>\<open>s\<close>, \<^verbatim>\<open>v\<close> carry the prefix \<open>sig_\<close>: record selectors are constants, and
  the bare letters would capture the variables of the whole development.
\<close>

datatype ErrorKind =
    ErrSigTooShort | ErrSigTooLong | ErrSigInvalidSeqID | ErrSigInvalidDataLen
  | ErrSigMissingSTypeID | ErrSigMissingSLen | ErrSigInvalidSLen
  | ErrSigInvalidRIntID | ErrSigZeroRLen | ErrSigNegativeR | ErrSigTooMuchRPadding
  | ErrSigRIsZero | ErrSigRTooBig
  | ErrSigInvalidSIntID | ErrSigZeroSLen | ErrSigNegativeS | ErrSigTooMuchSPadding
  | ErrSigSIsZero | ErrSigSTooBig
  | ErrSigInvalidLen | ErrSigInvalidRecoveryCode | ErrSigOverflowsPrime
  | ErrPointNotOnCurve

record Signature =
  sig_r :: ModNScalar
  sig_s :: ModNScalar
  sig_v :: byte

definition asn1SequenceID :: byte where "asn1SequenceID = 0x30"
definition asn1IntegerID :: byte where "asn1IntegerID = 0x02"

definition NewSignature :: "ModNScalar \<Rightarrow> ModNScalar \<Rightarrow> Signature" where
  "NewSignature x y = \<lparr> sig_r = x, sig_s = y, sig_v = 0xff \<rparr>"

text \<open>
  The two trimming loops of \<^verbatim>\<open>Serialize\<close>: drop a leading zero byte as long as more
  than one byte is left and the next byte does not have its high bit set.
\<close>

fun canon_trim :: "byte list \<Rightarrow> byte list" where
  "canon_trim (a # b # rest) =
     (if a = 0 \<and> b AND 0x80 = 0 then canon_trim (b # rest) else a # b # rest)"
| "canon_trim bs = bs"

definition Serialize :: "Signature \<Rightarrow> byte list" where
  "Serialize sig =
     (let sigS = (if ModNScalar_IsOverHalfOrder (sig_s sig)
                  then ModNScalar_Negate (sig_s sig) else sig_s sig);
          rBuf = 0 # ModNScalar_PutBytesUnchecked (sig_r sig);
          sBuf = 0 # ModNScalar_PutBytesUnchecked sigS;
          canonR = canon_trim rBuf;
          canonS = canon_trim sBuf;
          totalLen = 6 + length canonR + length canonS
      in [asn1SequenceID, of_nat (totalLen - 2), asn1IntegerID, of_nat (length canonR)]
         @ canonR @ [asn1IntegerID, of_nat (length canonS)] @ canonS)"

text \<open>
  \<^verbatim>\<open>ParseDERSignature\<close>, check by check in the order of the source.  Every index read
  is below the length of the input by the checks that precede it (the code never
  panics): offsets 0 to 5 by the minimum length, \<open>sTypeOffset\<close> and \<open>sLenOffset\<close> by
  their own checks, \<open>sOffset\<close> and \<open>sOffset + 1\<close> by the check of the S length together
  with \<open>sLen \<noteq> 0\<close> and \<open>sLen > 1\<close>.
\<close>

definition minSigLen :: nat where "minSigLen = 8"
definition maxSigLen :: nat where "maxSigLen = 72"
definition sequenceOffset :: nat where "sequenceOffset = 0"
definition dataLenOffset :: nat where "dataLenOffset = 1"
definition rTypeOffset :: nat where "rTypeOffset = 2"
definition rLenOffset :: nat where "rLenOffset = 3"
definition rOffset :: nat where "rOffset = 4"

definition ParseDERSignature :: "byte list \<Rightarrow> ErrorKind + Signature" where
  "ParseDERSignature sig =
     (let sigLen = length sig in
      if sigLen < minSigLen then Inl ErrSigTooShort
      else if sigLen > maxSigLen then Inl ErrSigTooLong
      else if sig ! sequenceOffset \<noteq> asn1SequenceID then Inl ErrSigInvalidSeqID
      else if unat (sig ! dataLenOffset) \<noteq> sigLen - 2 then Inl ErrSigInvalidDataLen
      else
        let rLen = unat (sig ! rLenOffset);
            sTypeOffset = rOffset + rLen;
            sLenOffset = sTypeOffset + 1 in
        if sTypeOffset \<ge> sigLen then Inl ErrSigMissingSTypeID
        else if sLenOffset \<ge> sigLen then Inl ErrSigMissingSLen
        else
          let sOffset = sLenOffset + 1;
              sLen = unat (sig ! sLenOffset) in
          if sOffset + sLen \<noteq> sigLen then Inl ErrSigInvalidSLen
          else if sig ! rTypeOffset \<noteq> asn1IntegerID then Inl ErrSigInvalidRIntID
          else if rLen = 0 then Inl ErrSigZeroRLen
          else if sig ! rOffset AND 0x80 \<noteq> 0 then Inl ErrSigNegativeR
          else if rLen > 1 \<and> sig ! rOffset = 0 \<and> sig ! (rOffset + 1) AND 0x80 = 0
            then Inl ErrSigTooMuchRPadding
          else if sig ! sTypeOffset \<noteq> asn1IntegerID then Inl ErrSigInvalidSIntID
          else if sLen = 0 then Inl ErrSigZeroSLen
          else if sig ! sOffset AND 0x80 \<noteq> 0 then Inl ErrSigNegativeS
          else if sLen > 1 \<and> sig ! sOffset = 0 \<and> sig ! (sOffset + 1) AND 0x80 = 0
            then Inl ErrSigTooMuchSPadding
          else
            let rBytes = dropWhile (\<lambda>b. b = 0) (take rLen (drop rOffset sig)) in
            if length rBytes > 32 then Inl ErrSigRTooBig
            else (case ModNScalar_SetByteSlice rBytes of (rv, overflowR) \<Rightarrow>
              if overflowR then Inl ErrSigRTooBig
              else if ModNScalar_IsZero rv then Inl ErrSigRIsZero
              else
                let sBytes = dropWhile (\<lambda>b. b = 0) (take sLen (drop sOffset sig)) in
                if length sBytes > 32 then Inl ErrSigSTooBig
                else (case ModNScalar_SetByteSlice sBytes of (sv, overflowS) \<Rightarrow>
                  if overflowS then Inl ErrSigSTooBig
                  else if ModNScalar_IsZero sv then Inl ErrSigSIsZero
                  else Inr (NewSignature rv sv))))"

text \<open>
  \<^verbatim>\<open>ExportCompact\<close>.  The negated copy \<open>sigS\<close> is computed and the oddness bit of the
  recovery code is flipped with it, but the two 32-byte fields are written from
  \<^verbatim>\<open>sig.r\<close> and \<^verbatim>\<open>sig.s\<close>; the addition of the offset is on bytes.
\<close>

definition compactSigSize :: nat where "compactSigSize = 65"

definition ExportCompact :: "Signature \<Rightarrow> bool \<Rightarrow> byte \<Rightarrow> byte list" where
  "ExportCompact sig recoveryCodeFirst recoveryCodeOffset =
     (let over = ModNScalar_IsOverHalfOrder (sig_s sig);
          sigS = (if over then ModNScalar_Negate (sig_s sig) else sig_s sig);
          vv = (if over then sig_v sig XOR 0x01 else sig_v sig)
      in if recoveryCodeFirst
         then [vv + recoveryCodeOffset]
              @ ModNScalar_PutBytesUnchecked (sig_r sig)
              @ ModNScalar_PutBytesUnchecked (sig_s sig)
         else ModNScalar_PutBytesUnchecked (sig_r sig)
              @ ModNScalar_PutBytesUnchecked (sig_s sig)
              @ [vv + recoveryCodeOffset])"

section \<open>The DER checks as the specification words them\<close>

text \<open>
  The specification of the parser, written from its words and not from the code: a DER
  signature is \<open>0x30 len 0x02 rlen R 0x02 slen S\<close>, of total length in \<open>[8, 72]\<close>, with
  the outer length byte equal to the total length minus 2, with R and S non-negative
  (high bit of the first byte clear), minimally encoded (no leading zero byte unless
  the next byte has its high bit set) and in \<open>[1, n - 1]\<close>.  \<open>der_decode\<close> gives, for
  the four parts of a framed input, the error kind of the first violated condition.
\<close>

definition der_padded :: "byte list \<Rightarrow> bool" where
  "der_padded bs = (length bs > 1 \<and> bs ! 0 = 0 \<and> \<not> bit (bs ! 1) 7)"

definition der_decode :: "byte \<Rightarrow> byte list \<Rightarrow> byte \<Rightarrow> byte list \<Rightarrow> ErrorKind + Signature" where
  "der_decode t1 R t2 S =
     (if t1 \<noteq> 0x02 then Inl ErrSigInvalidRIntID
      else if R = [] then Inl ErrSigZeroRLen
      else if bit (hd R) 7 then Inl ErrSigNegativeR
      else if der_padded R then Inl ErrSigTooMuchRPadding
      else if t2 \<noteq> 0x02 then Inl ErrSigInvalidSIntID
      else if S = [] then Inl ErrSigZeroSLen
      else if bit (hd S) 7 then Inl ErrSigNegativeS
      else if der_padded S then Inl ErrSigTooMuchSPadding
      else if curveN \<le> big_SetBytes R then Inl ErrSigRTooBig
      else if big_SetBytes R = 0 then Inl ErrSigRIsZero
      else if curveN \<le> big_SetBytes S then Inl ErrSigSTooBig
      else if big_SetBytes S = 0 then Inl ErrSigSIsZero
      else Inr \<lparr> sig_r = big_SetBytes R, sig_s = big_SetBytes S, sig_v = 0xff \<rparr>)"

definition der_int_ok :: "byte list \<Rightarrow> bool" where
  "der_int_ok bs = (bs \<noteq> [] \<and> \<not> bit (hd bs) 7 \<and> \<not> der_padded bs)"

definition der_header :: "byte list \<Rightarrow> bool" where
  "der_header sg = (8 \<le> length sg \<and> length sg \<le> 72 \<and> sg ! 0 = 0x30
                    \<and> unat (sg ! 1) = length sg - 2)"

definition der_frame :: "byte list \<Rightarrow> byte list \<Rightarrow> byte list \<Rightarrow> bool" where
  "der_frame sg R S =
     (sg = [0x30, of_nat (length sg - 2), 0x02, of_nat (length R)] @ R
             @ [0x02, of_nat (length S)] @ S
      \<and> 8 \<le> length sg \<and> length sg \<le> 72 \<and> der_int_ok R \<and> der_int_ok S)"

definition der_wellformed :: "byte list \<Rightarrow> bool" where
  "der_wellformed sg =
     (\<exists>R S. der_frame sg R S
            \<and> 1 \<le> big_SetBytes R \<and> big_SetBytes R < curveN
            \<and> 1 \<le> big_SetBytes S \<and> big_SetBytes S < curveN)"

text \<open>
  Test vectors of the repository: the signature whose R equals the group order
  (test "R == N"), with its two integer fields, and a signature with a high S (test
  "valid 3" of the serialization tests), given a recovery code.
\<close>

definition sigRequalsN :: "byte list" where
  "sigRequalsN =
     [0x30, 0x45, 0x02, 0x21, 0x00,
      0xff, 0xff, 0xff, 0xff, 0xff, 0xff, 0xff, 0xff, 0xff, 0xff, 0xff, 0xff, 0xff, 0xff, 0xff, 0xfe,
      0xba, 0xae, 0xdc, 0xe6, 0xaf, 0x48, 0xa0, 0x3b, 0xbf, 0xd2, 0x5e, 0x8c, 0xd0, 0x36, 0x41, 0x41,
      0x02, 0x20,
      0x18, 0x15, 0x22, 0xec, 0x8e, 0xca, 0x07, 0xde, 0x48, 0x60, 0xa4, 0xac, 0xdd, 0x12, 0x90, 0x9d,
      0x83, 0x1c, 0xc5, 0x6c, 0xbb, 0xac, 0x46, 0x22, 0x08, 0x22, 0x21, 0xa8, 0x76, 0x8d, 0x1d, 0x09]"

definition sigRequalsN_R :: "byte list" where
  "sigRequalsN_R = [0x00,
      0xff, 0xff, 0xff, 0xff, 0xff, 0xff, 0xff, 0xff, 0xff, 0xff, 0xff, 0xff, 0xff, 0xff, 0xff, 0xfe,
      0xba, 0xae, 0xdc, 0xe6, 0xaf, 0x48, 0xa0, 0x3b, 0xbf, 0xd2, 0x5e, 0x8c, 0xd0, 0x36, 0x41, 0x41]"
definition sigRequalsN_S :: "byte list" where
  "sigRequalsN_S = [0x18, 0x15, 0x22, 0xec, 0x8e, 0xca, 0x07, 0xde, 0x48, 0x60, 0xa4, 0xac, 0xdd, 0x12, 0x90, 0x9d,
      0x83, 0x1c, 0xc5, 0x6c, 0xbb, 0xac, 0x46, 0x22, 0x08, 0x22, 0x21, 0xa8, 0x76, 0x8d, 0x1d, 0x09]"

definition sigHighS :: Signature where
  "sigHighS = \<lparr> sig_r = 0x1cadddc2838598fee7dc35a12b340c6bde8b389f7bfd19a1252a17c4b5ed2d71,
                 sig_s = 0xc1a251bbecb14b058a8bd77f65de87e51c47e95904f4c0e9d52eddc21c1415ac,
                 sig_v = 0x01 \<rparr>"

section \<open>Field values\<close>

text \<open>
  Modelled from the spec: the type \<^verbatim>\<open>FieldVal\<close> and its methods (field.go is not under
  src/).  The spec: an integer mod \<open>p = 2^256 - 2^32 - 977\<close> in ten limbs with a
  magnitude that bounds the unreduced limbs; normalization reduces the magnitude to 1
  and canonicalizes the value in \<open>[0, p)\<close>; \<^verbatim>\<open>Negate(m)\<close> takes a bound of the current
  magnitude; equality and the tests \<^verbatim>\<open>IsZero\<close>, \<^verbatim>\<open>IsOne\<close>, \<^verbatim>\<open>IsOdd\<close> are on
  normalized values; \<^verbatim>\<open>Inverse\<close> is Fermat's little theorem.  A field value is
  modelled by its canonical value in \<open>[0, p)\<close>: the deferred reduction and the
  magnitudes are not modelled, every operation returns the reduced result.
\<close>

type_synonym FieldVal = int

definition FieldVal_SetInt :: "nat \<Rightarrow> FieldVal" where
  "FieldVal_SetInt ui = int ui mod fieldPrime"

definition FieldVal_Normalize :: "FieldVal \<Rightarrow> FieldVal" where
  "FieldVal_Normalize f = f mod fieldPrime"

definition FieldVal_Add :: "FieldVal \<Rightarrow> FieldVal \<Rightarrow> FieldVal" where
  "FieldVal_Add f g = (f + g) mod fieldPrime"

definition FieldVal_Negate :: "FieldVal \<Rightarrow> nat \<Rightarrow> FieldVal" where
  "FieldVal_Negate f magnitude = (- f) mod fieldPrime"

definition FieldVal_MulInt :: "FieldVal \<Rightarrow> nat \<Rightarrow> FieldVal" where
  "FieldVal_MulInt f k = (f * int k) mod fieldPrime"

definition FieldVal_Mul2 :: "FieldVal \<Rightarrow> FieldVal \<Rightarrow> FieldVal" where
  "FieldVal_Mul2 f g = (f * g) mod fieldPrime"

definition FieldVal_SquareVal :: "FieldVal \<Rightarrow> FieldVal" where
  "FieldVal_SquareVal f = (f * f) mod fieldPrime"

definition FieldVal_Inverse :: "FieldVal \<Rightarrow> FieldVal" where
  "FieldVal_Inverse f = (f ^ nat (fieldPrime - 2)) mod fieldPrime"

definition FieldVal_Equals :: "FieldVal \<Rightarrow> FieldVal \<Rightarrow> bool" where
  "FieldVal_Equals f g = (f = g)"

definition FieldVal_IsZero :: "FieldVal \<Rightarrow> bool" where
  "FieldVal_IsZero f = (f = 0)"

definition FieldVal_IsOne :: "FieldVal \<Rightarrow> bool" where
  "FieldVal_IsOne f = (f = 1)"

definition FieldVal_IsOddBit :: "FieldVal \<Rightarrow> 32 word" where
  "FieldVal_IsOddBit f = (if odd f then 1 else 0)"

definition FieldVal_PutBytes :: "FieldVal \<Rightarrow> byte list" where
  "FieldVal_PutBytes f = be_bytes 32 f"

section \<open>Jacobian points and the group operations\<close>

text \<open>
  \<^verbatim>\<open>JacobianPoint\<close> and the addition and doubling routines of curve.go.  The Go
  routines write their result through a pointer that may alias the first operand
  (\<^verbatim>\<open>AddNonConst(&q, &pt, &q)\<close>); each of them reads a coordinate of the operand for
  the last time before it writes the coordinate of the result it may share, so the
  routines are functions from the operands to the result.
\<close>

record JacobianPoint =
  X :: FieldVal
  Y :: FieldVal
  Z :: FieldVal

definition infinityZ0 :: JacobianPoint where
  "infinityZ0 = \<lparr> X = FieldVal_SetInt 0, Y = FieldVal_SetInt 0, Z = FieldVal_SetInt 0 \<rparr>"

definition ToAffine :: "JacobianPoint \<Rightarrow> JacobianPoint" where
  "ToAffine p =
     (let zInv = FieldVal_Inverse (Z p);
          tempZ = FieldVal_SquareVal zInv;
          x = FieldVal_Mul2 (X p) tempZ;
          y = FieldVal_Mul2 (Y p) (FieldVal_Mul2 tempZ zInv)
      in \<lparr> X = FieldVal_Normalize x, Y = FieldVal_Normalize y, Z = FieldVal_SetInt 1 \<rparr>)"

definition doubleZ1EqualsOne :: "JacobianPoint \<Rightarrow> JacobianPoint" where
  "doubleZ1EqualsOne p =
     (let x1 = X p; y1 = Y p;
          z3 = FieldVal_MulInt y1 2;
          a = FieldVal_SquareVal x1;
          b = FieldVal_SquareVal y1;
          c = FieldVal_SquareVal b;
          b = FieldVal_SquareVal (FieldVal_Add b x1);
          d = FieldVal_Negate (FieldVal_Add a c) 2;
          d = FieldVal_MulInt (FieldVal_Add d b) 2;
          e = FieldVal_MulInt a 3;
          f = FieldVal_SquareVal e;
          x3 = FieldVal_Negate (FieldVal_MulInt d 2) 16;
          x3 = FieldVal_Add x3 f;
          f = FieldVal_Normalize (FieldVal_Add (FieldVal_Negate x3 18) d);
          y3 = FieldVal_Negate (FieldVal_MulInt c 8) 8;
          y3 = FieldVal_Add y3 (FieldVal_Mul2 f e)
      in \<lparr> X = FieldVal_Normalize x3, Y = FieldVal_Normalize y3, Z = FieldVal_Normalize z3 \<rparr>)"

definition doubleGeneric :: "JacobianPoint \<Rightarrow> JacobianPoint" where
  "doubleGeneric p =
     (let x1 = X p; y1 = Y p; z1 = Z p;
          z3 = FieldVal_MulInt (FieldVal_Mul2 y1 z1) 2;
          a = FieldVal_SquareVal x1;
          b = FieldVal_SquareVal y1;
          c = FieldVal_SquareVal b;
          b = FieldVal_SquareVal (FieldVal_Add b x1);
          d = FieldVal_Negate (FieldVal_Add a c) 2;
          d = FieldVal_MulInt (FieldVal_Add d b) 2;
          e = FieldVal_MulInt a 3;
          f = FieldVal_SquareVal e;
          x3 = FieldVal_Negate (FieldVal_MulInt d 2) 16;
          x3 = FieldVal_Add x3 f;
          f = FieldVal_Normalize (FieldVal_Add (FieldVal_Negate x3 18) d);
          y3 = FieldVal_Negate (FieldVal_MulInt c 8) 8;
          y3 = FieldVal_Add y3 (FieldVal_Mul2 f e)
      in \<lparr> X = FieldVal_Normalize x3, Y = FieldVal_Normalize y3, Z = FieldVal_Normalize z3 \<rparr>)"

definition DoubleNonConst :: "JacobianPoint \<Rightarrow> JacobianPoint" where
  "DoubleNonConst p =
     (if FieldVal_IsZero (Y p) \<or> FieldVal_IsZero (Z p) then infinityZ0
      else if FieldVal_IsOne (Z p) then doubleZ1EqualsOne p
      else doubleGeneric p)"

definition addZ1AndZ2EqualsOne :: "JacobianPoint \<Rightarrow> JacobianPoint \<Rightarrow> JacobianPoint" where
  "addZ1AndZ2EqualsOne p1 p2 =
     (let x1 = X p1; y1 = Y p1; x2 = X p2; y2 = Y p2 in
      if FieldVal_Equals x1 x2 then
        (if FieldVal_Equals y1 y2 then DoubleNonConst p1 else infinityZ0)
      else
        let h = FieldVal_Add (FieldVal_Negate x1 1) x2;
            i = FieldVal_MulInt (FieldVal_SquareVal h) 4;
            j = FieldVal_Mul2 h i;
            r = FieldVal_MulInt (FieldVal_Add (FieldVal_Negate y1 1) y2) 2;
            v = FieldVal_Mul2 x1 i;
            negJ = FieldVal_Negate j 1;
            neg2V = FieldVal_Negate (FieldVal_MulInt v 2) 2;
            x3 = FieldVal_Add (FieldVal_Add (FieldVal_SquareVal r) negJ) neg2V;
            negX3 = FieldVal_Negate x3 6;
            j = FieldVal_Negate (FieldVal_MulInt (FieldVal_Mul2 j y1) 2) 2;
            y3 = FieldVal_Add (FieldVal_Mul2 (FieldVal_Add v negX3) r) j;
            z3 = FieldVal_MulInt h 2
        in \<lparr> X = FieldVal_Normalize x3, Y = FieldVal_Normalize y3, Z = FieldVal_Normalize z3 \<rparr>)"

definition addZ1EqualsZ2 :: "JacobianPoint \<Rightarrow> JacobianPoint \<Rightarrow> JacobianPoint" where
  "addZ1EqualsZ2 p1 p2 =
     (let x1 = X p1; y1 = Y p1; z1 = Z p1; x2 = X p2; y2 = Y p2 in
      if FieldVal_Equals x1 x2 then
        (if FieldVal_Equals y1 y2 then DoubleNonConst p1 else infinityZ0)
      else
        let negX1 = FieldVal_Negate x1 1;
            negY1 = FieldVal_Negate y1 1;
            a = FieldVal_Add negX1 x2;
            b = FieldVal_SquareVal a;
            c = FieldVal_Add negY1 y2;
            d = FieldVal_SquareVal c;
            e = FieldVal_Mul2 x1 b;
            negE = FieldVal_Negate e 1;
            f = FieldVal_Mul2 x2 b;
            x3 = FieldVal_Add (FieldVal_Negate (FieldVal_Add e f) 3) d;
            negX3 = FieldVal_Normalize (FieldVal_Negate x3 5);
            f = FieldVal_Add f negE;
            y3 = FieldVal_Negate (FieldVal_Mul2 y1 f) 3;
            e = FieldVal_Mul2 (FieldVal_Add e negX3) c;
            y3 = FieldVal_Add y3 e;
            z3 = FieldVal_Mul2 z1 a
        in \<lparr> X = FieldVal_Normalize x3, Y = FieldVal_Normalize y3, Z = FieldVal_Normalize z3 \<rparr>)"

definition addZ2EqualsOne :: "JacobianPoint \<Rightarrow> JacobianPoint \<Rightarrow> JacobianPoint" where
  "addZ2EqualsOne p1 p2 =
     (let x1 = X p1; y1 = Y p1; z1 = Z p1; x2 = X p2; y2 = Y p2;
          z1z1 = FieldVal_SquareVal z1;
          u2 = FieldVal_Normalize (FieldVal_Mul2 x2 z1z1);
          s2 = FieldVal_Normalize (FieldVal_Mul2 (FieldVal_Mul2 y2 z1z1) z1) in
      if FieldVal_Equals x1 u2 then
        (if FieldVal_Equals y1 s2 then DoubleNonConst p1 else infinityZ0)
      else
        let negX1 = FieldVal_Negate x1 1;
            h = FieldVal_Add u2 negX1;
            hh = FieldVal_SquareVal h;
            i = FieldVal_MulInt hh 4;
            j = FieldVal_Mul2 h i;
            negY1 = FieldVal_Negate y1 1;
            r = FieldVal_MulInt (FieldVal_Add s2 negY1) 2;
            rr = FieldVal_SquareVal r;
            v = FieldVal_Mul2 x1 i;
            x3 = FieldVal_Negate (FieldVal_Add (FieldVal_MulInt v 2) j) 3;
            x3 = FieldVal_Add x3 rr;
            negX3 = FieldVal_Negate x3 5;
            y3 = FieldVal_Negate (FieldVal_MulInt (FieldVal_Mul2 y1 j) 2) 2;
            v = FieldVal_Mul2 (FieldVal_Add v negX3) r;
            y3 = FieldVal_Add y3 v;
            z3 = FieldVal_SquareVal (FieldVal_Add z1 h);
            z1z1 = FieldVal_Negate (FieldVal_Add z1z1 hh) 2;
            z3 = FieldVal_Add z3 z1z1
        in \<lparr> X = FieldVal_Normalize x3, Y = FieldVal_Normalize y3, Z = FieldVal_Normalize z3 \<rparr>)"

definition addGeneric :: "JacobianPoint \<Rightarrow> JacobianPoint \<Rightarrow> JacobianPoint" where
  "addGeneric p1 p2 =
     (let x1 = X p1; y1 = Y p1; z1 = Z p1; x2 = X p2; y2 = Y p2; z2 = Z p2;
          z1z1 = FieldVal_SquareVal z1;
          z2z2 = FieldVal_SquareVal z2;
          u1 = FieldVal_Normalize (FieldVal_Mul2 x1 z2z2);
          u2 = FieldVal_Normalize (FieldVal_Mul2 x2 z1z1);
          s1 = FieldVal_Normalize (FieldVal_Mul2 (FieldVal_Mul2 y1 z2z2) z2);
          s2 = FieldVal_Normalize (FieldVal_Mul2 (FieldVal_Mul2 y2 z1z1) z1) in
      if FieldVal_Equals u1 u2 then
        (if FieldVal_Equals s1 s2 then DoubleNonConst p1 else infinityZ0)
      else
        let negU1 = FieldVal_Negate u1 1;
            h = FieldVal_Add u2 negU1;
            i = FieldVal_SquareVal (FieldVal_MulInt h 2);
            j = FieldVal_Mul2 h i;
            negS1 = FieldVal_Negate s1 1;
            r = FieldVal_MulInt (FieldVal_Add s2 negS1) 2;
            rr = FieldVal_SquareVal r;
            v = FieldVal_Mul2 u1 i;
            x3 = FieldVal_Negate (FieldVal_Add (FieldVal_MulInt v 2) j) 3;
            x3 = FieldVal_Add x3 rr;
            negX3 = FieldVal_Negate x3 5;
            y3 = FieldVal_Negate (FieldVal_MulInt (FieldVal_Mul2 s1 j) 2) 2;
            v = FieldVal_Mul2 (FieldVal_Add v negX3) r;
            y3 = FieldVal_Add y3 v;
            z3 = FieldVal_SquareVal (FieldVal_Add z1 z2);
            z1z1 = FieldVal_Negate (FieldVal_Add z1z1 z2z2) 2;
            z3 = FieldVal_Add z3 z1z1;
            z3 = FieldVal_Mul2 z3 h
        in \<lparr> X = FieldVal_Normalize x3, Y = FieldVal_Normalize y3, Z = FieldVal_Normalize z3 \<rparr>)"

definition AddNonConst :: "JacobianPoint \<Rightarrow> JacobianPoint \<Rightarrow> JacobianPoint" where
  "AddNonConst p1 p2 =
     (if (FieldVal_IsZero (X p1) \<and> FieldVal_IsZero (Y p1)) \<or> FieldVal_IsZero (Z p1) then p2
      else if (FieldVal_IsZero (X p2) \<and> FieldVal_IsZero (Y p2)) \<or> FieldVal_IsZero (Z p2) then p1
      else
        let isZ1One = FieldVal_IsOne (Z p1);
            isZ2One = FieldVal_IsOne (Z p2) in
        if isZ1One \<and> isZ2One then addZ1AndZ2EqualsOne p1 p2
        else if FieldVal_Equals (Z p1) (Z p2) then addZ1EqualsZ2 p1 p2
        else if isZ2One then addZ2EqualsOne p1 p2
        else addGeneric p1 p2)"

text \<open>
  The test for the point at infinity that \<^verbatim>\<open>AddNonConst\<close>, \<^verbatim>\<open>Verify\<close> and
  \<^verbatim>\<open>RecoverPublicKey\<close> apply: \<open>Z = 0\<close>, or \<open>X = 0\<close> and \<open>Y = 0\<close>.
\<close>

definition isInfinity :: "JacobianPoint \<Rightarrow> bool" where
  "isInfinity p = ((FieldVal_IsZero (X p) \<and> FieldVal_IsZero (Y p)) \<or> FieldVal_IsZero (Z p))"

section \<open>Base point multiplication and signing\<close>

text \<open>
  \<^verbatim>\<open>ScalarBaseMultNonConst\<close> walks the 32 bytes of the scalar and adds the table entry
  of each byte.  The table \<^verbatim>\<open>s256BytePoints\<close> is loaded from a compressed constant
  that is not under src/: it is the parameter \<open>bytePoints\<close>, the entry of byte
  position \<open>i\<close> and byte value \<open>b\<close> being the three field values \<open>bytePoints i b\<close>.
\<close>

type_synonym bytePointTable = "nat \<Rightarrow> byte \<Rightarrow> FieldVal \<times> FieldVal \<times> FieldVal"

definition ScalarBaseMultNonConst :: "bytePointTable \<Rightarrow> ModNScalar \<Rightarrow> JacobianPoint" where
  "ScalarBaseMultNonConst bytePoints k =
     foldl (\<lambda>q (i, byteVal).
              (case bytePoints i byteVal of (p0, p1, p2) \<Rightarrow>
                 AddNonConst q \<lparr> X = p0, Y = p1, Z = FieldVal_SetInt 1 \<rparr>))
           \<lparr> X = 0, Y = 0, Z = 0 \<rparr>
           (enumerate 0 (ModNScalar_Bytes k))"

definition fieldToModNScalar :: "FieldVal \<Rightarrow> ModNScalar \<times> 32 word" where
  "fieldToModNScalar f = ModNScalar_SetBytes (FieldVal_PutBytes f)"

text \<open>
  \<^verbatim>\<open>sign\<close> of signature.go: \<open>None\<close> is the result \<^verbatim>\<open>(nil, false)\<close> that makes the
  caller try the next nonce.
\<close>

definition sign :: "bytePointTable \<Rightarrow> ModNScalar \<Rightarrow> ModNScalar \<Rightarrow> byte list \<Rightarrow> Signature option" where
  "sign bytePoints privKey nonce hash =
     (let k = nonce;
          kG = ToAffine (ScalarBaseMultNonConst bytePoints k) in
      case fieldToModNScalar (X kG) of (rv, overflow) \<Rightarrow>
        if ModNScalar_IsZero rv then None
        else
          let pubKeyRecoveryCode =
                (ucast (push_bit 1 overflow) :: byte) OR ucast (FieldVal_IsOddBit (Y kG));
              e = fst (ModNScalar_SetByteSlice hash);
              kinv = ModNScalar_InverseValNonConst k;
              sv = ModNScalar_Mul2 (ModNScalar_Add (ModNScalar_Mul2 privKey rv) e) kinv in
          if ModNScalar_IsZero sv then None
          else if ModNScalar_IsOverHalfOrder sv
            then Some \<lparr> sig_r = rv, sig_s = ModNScalar_Negate sv,
                        sig_v = pubKeyRecoveryCode XOR 0x01 \<rparr>
            else Some \<lparr> sig_r = rv, sig_s = sv, sig_v = pubKeyRecoveryCode \<rparr>)"

text \<open>
  \<^verbatim>\<open>signRFC6979\<close>: the loop over the 32-bit iteration counter ends at the first nonce
  for which \<open>sign\<close> succeeds, and does not end if there is none.  The nonce generator
  \<^verbatim>\<open>NonceRFC6979\<close> is not under src/: it is the parameter \<open>nonceRFC6979\<close>, from the
  32 bytes of the private key, the hash and the iteration to a scalar.
\<close>

partial_function (option) signRFC6979_loop ::
  "(byte list \<Rightarrow> byte list \<Rightarrow> 32 word \<Rightarrow> ModNScalar) \<Rightarrow> bytePointTable
     \<Rightarrow> ModNScalar \<Rightarrow> byte list \<Rightarrow> 32 word \<Rightarrow> Signature option" where
  "signRFC6979_loop nonceRFC6979 bytePoints privKey hash iteration =
     (case sign bytePoints privKey
             (nonceRFC6979 (ModNScalar_Bytes privKey) hash iteration) hash of
        Some sg \<Rightarrow> Some sg
      | None \<Rightarrow> signRFC6979_loop nonceRFC6979 bytePoints privKey hash (iteration + 1))"

definition signRFC6979 ::
  "(byte list \<Rightarrow> byte list \<Rightarrow> 32 word \<Rightarrow> ModNScalar) \<Rightarrow> bytePointTable
     \<Rightarrow> ModNScalar \<Rightarrow> byte list \<Rightarrow> Signature option" where
  "signRFC6979 nonceRFC6979 bytePoints privKey hash =
     signRFC6979_loop nonceRFC6979 bytePoints privKey hash 0"

section \<open>Properties of the big-integer helpers\<close>

lemma big_SetBytes_snoc:
  "big_SetBytes (bs @ [b]) = big_SetBytes bs * 256 + uint b"
  by (simp add: big_SetBytes_def)

lemma big_SetBytes_nat_bytes: "big_SetBytes (nat_bytes n) = int n"
proof (induction n rule: nat_bytes.induct)
  case (1 n)
  show ?case
  proof (cases "n = 0")
    case True
    then show ?thesis
      by (simp add: nat_bytes.simps [of 0] big_SetBytes_def)
  next
    case False
    have "uint (of_nat (n mod 256) :: byte) = int (n mod 256)"
      by (simp add: uint_nat unat_of_nat)
    with False 1 show ?thesis
      by (simp add: nat_bytes.simps [of n] big_SetBytes_snoc zmod_int zdiv_int)
  qed
qed

lemma big_SetBytes_Bytes: "big_SetBytes (big_Bytes x) = \<bar>x\<bar>"
  by (simp add: big_Bytes_def big_SetBytes_nat_bytes)

lemma big_Sign_abs: "big_Sign x * \<bar>x\<bar> = x"
  by (simp add: big_Sign_def)

section \<open>The decomposition of splitK\<close>

lemma endomorphism_row1: "(endomorphismA1 + endomorphismB1 * endomorphismLambda) mod curveN = 0"
  by (simp add: endomorphismA1_def endomorphismB1_def endomorphismLambda_def curveN_def)

lemma endomorphism_row2: "(endomorphismA2 + endomorphismB2 * endomorphismLambda) mod curveN = 0"
  by (simp add: endomorphismA2_def endomorphismB2_def endomorphismLambda_def curveN_def)

lemma split_sum_cong:
  fixes k c1 c2 :: int
  shows "((k - c1 * endomorphismA1 + c2 * endomorphismA2)
          + (c2 * endomorphismB2 - c1 * endomorphismB1) * endomorphismLambda) mod curveN
         = k mod curveN"
proof -
  obtain u where u: "endomorphismA1 + endomorphismB1 * endomorphismLambda = curveN * u"
    using endomorphism_row1 by (meson mod_eq_0_iff_dvd dvdE)
  obtain v where v: "endomorphismA2 + endomorphismB2 * endomorphismLambda = curveN * v"
    using endomorphism_row2 by (meson mod_eq_0_iff_dvd dvdE)
  have "(k - c1 * endomorphismA1 + c2 * endomorphismA2)
          + (c2 * endomorphismB2 - c1 * endomorphismB1) * endomorphismLambda
        = k - c1 * (endomorphismA1 + endomorphismB1 * endomorphismLambda)
            + c2 * (endomorphismA2 + endomorphismB2 * endomorphismLambda)"
    by (simp add: algebra_simps)
  also have "\<dots> = k + curveN * (c2 * v - c1 * u)"
    unfolding u v by (simp add: algebra_simps)
  finally have "(k - c1 * endomorphismA1 + c2 * endomorphismA2)
          + (c2 * endomorphismB2 - c1 * endomorphismB1) * endomorphismLambda
        = k + curveN * (c2 * v - c1 * u)" .
  then show ?thesis
    by (simp only: mod_mult_self2)
qed

text \<open>
  C5.  For every byte slice \<open>k\<close> (in particular the 32-byte encoding of a scalar in
  \<open>[0, n)\<close>), the values \<open>(k1, k2, sign1, sign2)\<close> returned by \<open>splitK\<close> satisfy
  \<open>sign1 * k1 + sign2 * k2 * lambda = k (mod n)\<close>, where \<open>k1\<close>, \<open>k2\<close> and \<open>k\<close> are read
  as the non-negative integers that the big-endian slices encode.
\<close>

theorem splitK_congruence:
  "(case splitK k of (k1, k2, sign1, sign2) \<Rightarrow>
      (sign1 * big_SetBytes k1 + sign2 * big_SetBytes k2 * endomorphismLambda) mod curveN)
   = big_SetBytes k mod curveN"
proof -
  define K where "K = big_SetBytes k"
  define c1 where "c1 = big_Div (endomorphismB2 * K) curveN"
  define c2 where "c2 = big_Div (endomorphismB1 * K) curveN"
  define k1 where "k1 = K - c1 * endomorphismA1 + c2 * endomorphismA2"
  define k2 where "k2 = c2 * endomorphismB2 - c1 * endomorphismB1"
  have s: "splitK k = (big_Bytes k1, big_Bytes k2, big_Sign k1, big_Sign k2)"
    by (simp add: splitK_def Let_def K_def c1_def c2_def k1_def k2_def)
  have "big_Sign k1 * big_SetBytes (big_Bytes k1)
          + big_Sign k2 * big_SetBytes (big_Bytes k2) * endomorphismLambda
        = k1 + k2 * endomorphismLambda"
    by (simp only: big_SetBytes_Bytes big_Sign_abs)
  then show ?thesis
    unfolding s K_def [symmetric] by (simp only: prod.case k1_def k2_def split_sum_cong)
qed

section \<open>Correctness of the non-adjacent form\<close>

lemma naf_digits_odd: "odd (naf_digits c x) = (odd x \<noteq> odd c)"
  by (auto simp add: naf_digits_def even_xor_iff)

lemma xor_div2_nat: "(a XOR b) div 2 = (a div 2) XOR (b div 2 :: nat)"
proof -
  have "drop_bit (Suc 0) (a XOR b) = drop_bit (Suc 0) a XOR drop_bit (Suc 0) b"
    by (rule drop_bit_xor)
  then show ?thesis
    by (simp only: drop_bit_Suc drop_bit_0 id_apply)
qed

lemma three_half_div2:
  "((x::nat) + x div 2 + c) div 2 = x div 2 + x div 2 div 2 + (x mod 2 + (x div 2) mod 2 + c) div 2"
proof -
  define y where "y = x div 2"
  define a where "a = x mod 2"
  define z where "z = y div 2"
  define b where "b = y mod 2"
  have x: "x = 2 * y + a" by (simp add: y_def a_def)
  have y: "y = 2 * z + b" by (simp add: z_def b_def)
  have "(x + y + c) = 2 * (y + z) + (a + b + c)"
    using x y by simp
  then have "(x + y + c) div 2 = y + z + (a + b + c) div 2"
    by (metis div_mult_self2 add.commute zero_neq_numeral)
  then show ?thesis
    by (simp only: y_def z_def a_def b_def)
qed

lemma naf_digits_div2:
  "naf_digits c x div 2 = naf_digits ((x mod 2 + (x div 2) mod 2 + c) div 2) (x div 2)"
  by (simp only: naf_digits_def xor_div2_nat three_half_div2)

lemma naf_digits_na:
  "c \<le> 1 \<Longrightarrow> \<not> (bit (naf_digits c x) i \<and> bit (naf_digits c x) (Suc i))"
proof (induction i arbitrary: c x)
  case 0
  have a: "x mod 2 = 0 \<or> x mod 2 = 1" by presburger
  have b: "x div 2 mod 2 = 0 \<or> x div 2 mod 2 = 1" by presburger
  have c: "c = 0 \<or> c = 1" using 0 by (cases c) simp_all
  have "bit (naf_digits c x) (Suc 0) = odd (naf_digits ((x mod 2 + (x div 2) mod 2 + c) div 2) (x div 2))"
    by (simp only: bit_Suc naf_digits_div2 bit_0)
  then have s1: "bit (naf_digits c x) (Suc 0)
      = (odd (x div 2) \<noteq> odd ((x mod 2 + (x div 2) mod 2 + c) div 2))"
    by (simp only: naf_digits_odd)
  have s0: "bit (naf_digits c x) 0 = (odd x \<noteq> odd c)"
    by (simp only: bit_0 naf_digits_odd)
  from a b c show ?case
    unfolding s0 s1 odd_iff_mod_2_eq_one by (elim disjE) simp_all
next
  case (Suc i)
  define c' where "c' = (x mod 2 + (x div 2) mod 2 + c) div 2"
  have a: "x mod 2 = 0 \<or> x mod 2 = 1" by presburger
  have b: "x div 2 mod 2 = 0 \<or> x div 2 mod 2 = 1" by presburger
  have c: "c = 0 \<or> c = 1" using Suc.prems by (cases c) simp_all
  from a b c have "c' \<le> 1"
    unfolding c'_def by (elim disjE) simp_all
  then have ih: "\<not> (bit (naf_digits c' (x div 2)) i \<and> bit (naf_digits c' (x div 2)) (Suc i))"
    by (rule Suc.IH)
  have d: "naf_digits c x div 2 = naf_digits c' (x div 2)"
    unfolding c'_def by (rule naf_digits_div2)
  have s1: "bit (naf_digits c x) (Suc i) = bit (naf_digits c' (x div 2)) i"
    by (simp only: bit_Suc [of _ i] d)
  have s2: "bit (naf_digits c x) (Suc (Suc i)) = bit (naf_digits c' (x div 2)) (Suc i)"
    by (simp only: bit_Suc [of _ "Suc i"] d)
  from ih show ?case
    unfolding s1 s2 .
qed


lemma and_xor_split_nat: "(t AND (t XOR h)) + (t AND h) = (t::nat)"
proof -
  have z: "(t AND (t XOR h)) AND (t AND h) = 0"
    by (rule bit_eqI) (auto simp add: bit_and_iff bit_xor_iff)
  have o: "(t AND (t XOR h)) OR (t AND h) = t"
    by (rule bit_eqI) (auto simp add: bit_and_iff bit_xor_iff bit_or_iff)
  show ?thesis
    using disjunctive_add_eq_or [OF z] o by simp
qed

lemma bit_add_256: "i < 8 \<Longrightarrow> bit (t + 256 * b) i = bit (t::nat) i"
proof -
  assume i: "i < 8"
  have "take_bit 8 (t + 256 * b) = take_bit 8 t"
    by (simp add: take_bit_eq_mod)
  then have "bit (take_bit 8 (t + 256 * b)) i = bit (take_bit 8 t) i"
    by simp
  with i show ?thesis
    by (simp add: bit_take_bit_iff)
qed

lemma not_bit_8: "h < 256 \<Longrightarrow> \<not> bit (h::nat) 8"
  by (simp add: bit_iff_odd)

lemma naf_byte_nat:
  fixes kc b h t :: nat
  assumes kc: "kc \<le> 255" and b: "b \<le> 1"
    and h_def: "h = kc div 2 + 128 * b"
    and t_def: "t = kc + h"
  shows "(t AND (t XOR h)) mod 256 + 256 * (t div 256) = kc + (h AND (t XOR h))"
    and "i < 7 \<Longrightarrow> \<not> (bit (t XOR h) i \<and> bit (t XOR h) (Suc i))"
    and "bit (t XOR h) 7 \<Longrightarrow> t div 256 = b"
    and "bit (t XOR h) 0 = odd kc"
    and "t div 256 \<le> 1" and "h < 256"
proof -
  define x where "x = kc + 256 * b"
  have h: "h = x div 2" by (simp add: h_def x_def)
  have hb: "h < 256" using kc b by (simp add: h_def)
  have tb: "t < 512" using kc hb by (simp add: t_def)
  show c1: "t div 256 \<le> 1" using tb by simp
  show "h < 256" by (rule hb)
  have "x + x div 2 + 0 = t + 256 * b"
    unfolding h [symmetric] by (simp add: t_def x_def)
  then have D: "naf_digits 0 x = (t + 256 * b) XOR h"
    unfolding naf_digits_def h [symmetric] by (rule arg_cong)
  have lowbits: "bit (naf_digits 0 x) i = bit (t XOR h) i" if "i < 8" for i
    using that by (simp add: D bit_xor_iff bit_add_256)
  show "\<not> (bit (t XOR h) i \<and> bit (t XOR h) (Suc i))" if "i < 7"
    using naf_digits_na [of 0 x i] that by (simp add: lowbits)
  show "bit (t XOR h) 0 = odd kc"
    using lowbits [of 0] naf_digits_odd [of 0 x] by (simp add: bit_0 x_def)
  show "t div 256 = b" if "bit (t XOR h) 7"
  proof -
    from that have "bit (naf_digits 0 x) 7" by (simp add: lowbits)
    with naf_digits_na [of 0 x 7] have "\<not> bit (naf_digits 0 x) 8"
      by (simp add: eval_nat_numeral)
    then have "\<not> bit (t + 256 * b) 8"
      by (simp add: D bit_xor_iff not_bit_8 [OF hb])
    then have "even ((t + 256 * b) div 256)"
      by (simp add: bit_iff_odd)
    then have "even (t div 256 + b)" by simp
    with c1 b show ?thesis
      by (cases "t div 256 = 0"; cases "b = 0") auto
  qed
  show "(t AND (t XOR h)) mod 256 + 256 * (t div 256) = kc + (h AND (t XOR h))"
  proof -
    have "drop_bit 8 (t AND (t XOR h)) = drop_bit 8 t AND (drop_bit 8 t XOR drop_bit 8 h)"
      by (simp only: drop_bit_and drop_bit_xor)
    moreover have "drop_bit 8 h = 0" using hb by (simp add: drop_bit_eq_div)
    ultimately have "(t AND (t XOR h)) div 256 = t div 256"
      by (simp add: drop_bit_eq_div)
    then have "(t AND (t XOR h)) mod 256 + 256 * (t div 256) = t AND (t XOR h)"
      by (metis mod_mult_div_eq)
    moreover have "(t AND (t XOR h)) + (t AND h) = kc + ((h AND (t XOR h)) + (h AND t))"
      using and_xor_split_nat [of t h] and_xor_split_nat [of h t]
      by (simp add: t_def xor.commute)
    ultimately show ?thesis by (simp add: and.commute)
  qed
qed

lemma push_bit_7_byte: "(push_bit 7 w :: byte) = (if bit w 0 then 2 ^ 7 else 0)"
proof (cases "bit w 0")
  case True
  have "push_bit 7 w = (2 ^ 7 :: byte)"
  proof (rule bit_word_eqI)
    fix n assume "n < LENGTH(8)"
    then show "bit (push_bit 7 w) n = bit (2 ^ 7 :: byte) n"
      unfolding bit_push_bit_iff bit_exp_iff using True by auto
  qed
  with True show ?thesis by (simp only: if_True)
next
  case False
  have "push_bit 7 w = (0 :: byte)"
  proof (rule bit_word_eqI)
    fix n assume "n < LENGTH(8)"
    then show "bit (push_bit 7 w) n = bit (0 :: byte) n"
      unfolding bit_push_bit_iff using False by auto
  qed
  with False show ?thesis by (simp only: if_False)
qed

lemma hi_bit: "(ucast (push_bit 7 (w::byte) :: byte) :: 16 word) = (if bit w 0 then 0x80 else 0)"
  by (simp add: push_bit_7_byte)


lemma and_mod_256: "h < 256 \<Longrightarrow> (h AND d) mod 256 = (h AND d :: nat)"
proof -
  assume "h < 256"
  then have "take_bit 8 h = h" by (simp add: take_bit_nat_eq_self)
  moreover have "take_bit 8 (h AND d) = take_bit 8 h AND d"
    by (rule bit_eqI) (auto simp add: bit_take_bit_iff bit_and_iff)
  ultimately have "take_bit 8 (h AND d) = h AND d"
    by simp
  then show ?thesis by (simp add: take_bit_eq_mod)
qed

lemma ucast_mask_word:
  "(ucast ((t :: 16 word) AND (t XOR h)) :: byte) OR ucast (h AND (t XOR h)) = ucast (t XOR h)"
  by (rule bit_word_eqI) (auto simp add: bit_ucast_iff bit_or_iff bit_and_iff bit_xor_iff)

lemma unat_byte_lt: "unat (w :: byte) < 256"
  using unsigned_less [of w, where 'a = nat] by simp

lemma unat_ucast_byte_16: "unat (ucast (w :: byte) :: 16 word) = unat w"
proof -
  have "unat w < 2 ^ 16" using unat_byte_lt [of w] by simp
  then show ?thesis
    by (simp only: unsigned_ucast_eq take_bit_nat_eq_self len_bit0 len_num1 mult_numeral_1_right numeral_times_numeral semiring_norm)
qed

lemma unat_ucast_16_byte: "unat (ucast (w :: 16 word) :: byte) = unat w mod 256"
  by (simp add: unsigned_ucast_eq take_bit_eq_mod)

lemma unat_and_16: "unat ((v :: 16 word) AND w) = unat v AND unat w"
  by (rule unsigned_and_eq)

lemma unat_or_16: "unat ((v :: 16 word) OR w) = unat v OR unat w"
  by (rule unsigned_or_eq)

lemma unat_xor_16: "unat ((v :: 16 word) XOR w) = unat v XOR unat w"
  by (rule unsigned_xor_eq)

lemma naf_byte_top: "naf_byte 255 1 nextWord = (0, 0, 1)"
  by (simp add: naf_byte_def hi_bit)

lemma naf_byte_unat:
  fixes kb carry nextWord pb nb c' :: byte
    and kc b h t :: nat
  assumes c: "carry = 0 \<or> carry = 1" and ne: "unat kb + unat carry \<le> 255"
    and kc_def: "kc = unat kb + unat carry"
    and b_def: "b = (if bit nextWord 0 then 1 else 0)"
    and h_def: "h = kc div 2 + 128 * b"
    and t_def: "t = kc + h"
    and r: "naf_byte kb carry nextWord = (pb, nb, c')"
  shows "unat pb = (t AND (t XOR h)) mod 256"
    and "unat nb = h AND (t XOR h)"
    and "unat c' = t div 256"
    and "bit (pb OR nb) i = (i < 8 \<and> bit (t XOR h) i)"
proof -
  define kcw :: "16 word" where "kcw = ucast kb + ucast carry"
  define hiw :: "16 word" where "hiw = ucast (push_bit 7 nextWord :: byte)"
  define hw where "hw = drop_bit 1 kcw OR hiw"
  define tw where "tw = kcw + hw"
  note ukb = unat_ucast_byte_16 [of kb]
  note ucr = unat_ucast_byte_16 [of carry]
  have kcw: "unat kcw = kc"
    unfolding kcw_def kc_def using ne
    by (simp add: unat_add_lem [THEN iffD1] ukb ucr)
  have hiw: "unat hiw = 128 * b"
    by (simp add: hiw_def hi_bit b_def)
  have dk: "unat (drop_bit 1 kcw) = kc div 2"
    unfolding unat_drop_bit_eq kcw by (simp add: drop_bit_eq_div)
  have disj: "(kc div 2) AND (128 * b) = 0"
  proof (cases "bit nextWord 0")
    case True
    have "kc div 2 < 2 ^ 7" using ne unfolding kc_def by simp
    then have "\<not> bit (kc div 2) 7"
      by (simp add: bit_iff_odd)
    then have "(kc div 2) AND 2 ^ 7 = 0"
      by (rule and_exp_eq_0_iff_not_bit [THEN iffD2])
    with True show ?thesis by (simp add: b_def)
  next
    case False
    then show ?thesis by (simp add: b_def)
  qed
  have hw: "unat hw = h"
    unfolding hw_def h_def
    by (simp only: unat_or_16 dk hiw disjunctive_add_eq_or [OF disj])
  have k2: "kc div 2 < 128" using ne unfolding kc_def by arith
  have hb: "h < 256" using k2 by (simp add: h_def b_def)
  have tb: "kc + h < 512" using ne hb unfolding kc_def by arith
  have tw: "unat tw = t"
    unfolding tw_def t_def using tb
    by (simp add: unat_add_lem [THEN iffD1] kcw hw)
  have res: "pb = ucast (tw AND (tw XOR hw))" "nb = ucast (hw AND (tw XOR hw))"
    "c' = ucast (drop_bit 8 tw)"
    using r by (simp_all add: naf_byte_def Let_def kcw_def hiw_def hw_def tw_def)
  show "unat pb = (t AND (t XOR h)) mod 256"
    by (simp only: res unat_ucast_16_byte unat_and_16 unat_xor_16 tw hw)
  show "unat nb = h AND (t XOR h)"
    by (simp only: res unat_ucast_16_byte unat_and_16 unat_xor_16 tw hw
        and_mod_256 [OF hb])
  have "t div 256 < 256" using tb by (simp add: t_def)
  moreover have "unat c' = drop_bit 8 t mod 256"
    by (simp only: res unat_ucast_16_byte unat_drop_bit_eq tw)
  ultimately show "unat c' = t div 256"
    by (simp add: drop_bit_eq_div)
  have "pb OR nb = ucast (tw XOR hw)"
    by (simp only: res ucast_mask_word)
  then have "bit (pb OR nb) i = (i < 8 \<and> bit (tw XOR hw) i)"
    by (simp add: bit_ucast_iff)
  also have "bit (tw XOR hw) i = bit (unat (tw XOR hw)) i"
    by (auto simp add: bit_unsigned_iff dest: bit_imp_le_length)
  also have "unat (tw XOR hw) = t XOR h"
    by (simp only: unat_xor_16 tw hw)
  finally show "bit (pb OR nb) i = (i < 8 \<and> bit (t XOR h) i)" .
qed

lemma byte_01: "(c::byte) = 0 \<or> c = 1 \<Longrightarrow> unat c \<le> 1"
  by auto

lemma byte_of_unat: "unat (c :: byte) = n \<Longrightarrow> c = of_nat n"
  by auto

lemma byte_le_1: "unat (c :: byte) \<le> 1 \<Longrightarrow> c = 0 \<or> c = 1"
proof -
  assume "unat c \<le> 1"
  then have "unat c = 0 \<or> unat c = 1" by linarith
  then show ?thesis
    by (auto dest: byte_of_unat)
qed

lemma naf_byte_props:
  fixes kb carry nextWord pb nb c' :: byte
  assumes c: "carry = 0 \<or> carry = 1" and r: "naf_byte kb carry nextWord = (pb, nb, c')"
  shows "c' = 0 \<or> c' = 1"
    and "uint pb + 256 * uint c' = uint kb + uint carry + uint nb"
    and "i < 7 \<Longrightarrow> \<not> (bit (pb OR nb) i \<and> bit (pb OR nb) (Suc i))"
    and "bit (pb OR nb) 7 \<Longrightarrow> (c' = 1) = bit nextWord 0"
    and "bit (pb OR nb) 0 = (bit kb 0 \<noteq> (carry = 1))"
proof -
  have all: "(c' = 0 \<or> c' = 1)
    \<and> uint pb + 256 * uint c' = uint kb + uint carry + uint nb
    \<and> (i < 7 \<longrightarrow> \<not> (bit (pb OR nb) i \<and> bit (pb OR nb) (Suc i)))
    \<and> (bit (pb OR nb) 7 \<longrightarrow> (c' = 1) = bit nextWord 0)
    \<and> bit (pb OR nb) 0 = (bit kb 0 \<noteq> (carry = 1))"
  proof (cases "unat kb + unat carry \<le> 255")
    case False
    have "unat kb < 256" by (rule unat_byte_lt)
    with False c have "unat kb = 255" and c1: "carry = 1"
      by auto
    then have "kb = 255"
      by (auto dest: byte_of_unat)
    with c1 r have "pb = 0" "nb = 0" "c' = 1"
      by (simp_all add: naf_byte_top)
    with \<open>kb = 255\<close> c1 show ?thesis
      by (simp add: bit_0)
  next
    case True
    define kc where "kc = unat kb + unat carry"
    define b where "b = (if bit nextWord 0 then 1 else 0 :: nat)"
    define h where "h = kc div 2 + 128 * b"
    define t where "t = kc + h"
    note u = naf_byte_unat [OF c True kc_def b_def h_def t_def r]
    have kc: "kc \<le> 255" using True by (simp add: kc_def)
    have b: "b \<le> 1" by (simp add: b_def)
    note n = naf_byte_nat [OF kc b h_def t_def]
    have c'01: "unat c' \<le> 1" using n(5) u(3) by simp
    then have c': "c' = 0 \<or> c' = 1"
      by (rule byte_le_1)
    have "int (unat pb) + 256 * int (unat c') = int (unat kb) + int (unat carry) + int (unat nb)"
      using n(1) u(1,2,3) unfolding kc_def by linarith
    then have v: "uint pb + 256 * uint c' = uint kb + uint carry + uint nb"
      by simp
    have m: "i < 7 \<longrightarrow> \<not> (bit (pb OR nb) i \<and> bit (pb OR nb) (Suc i))"
      using n(2) [of i] by (simp add: u(4))
    have x: "bit (pb OR nb) 7 \<longrightarrow> (c' = 1) = bit nextWord 0"
    proof
      assume "bit (pb OR nb) 7"
      then have "bit (t XOR h) 7" unfolding u(4) by simp
      then have "t div 256 = b" by (rule n(3))
      then have "unat c' = b" by (simp add: u(3))
      then have "c' = of_nat b" by (rule byte_of_unat)
      then show "(c' = 1) = bit nextWord 0"
        unfolding b_def by simp
    qed
    have "odd kc = (odd (unat kb) \<noteq> odd (unat carry))"
      unfolding kc_def by simp
    moreover have "odd (unat kb) = bit kb 0"
      using bit_unsigned_iff [of kb 0, where 'a = nat] by (simp add: bit_0)
    moreover have "odd (unat carry) = (carry = 1)"
      using c by auto
    ultimately have z: "bit (pb OR nb) 0 = (bit kb 0 \<noteq> (carry = 1))"
      using n(4) by (simp add: u(4))
    from c' v m x z show ?thesis by blast
  qed
  from all show "c' = 0 \<or> c' = 1"
    and "uint pb + 256 * uint c' = uint kb + uint carry + uint nb"
    and "i < 7 \<Longrightarrow> \<not> (bit (pb OR nb) i \<and> bit (pb OR nb) (Suc i))"
    and "bit (pb OR nb) 7 \<Longrightarrow> (c' = 1) = bit nextWord 0"
    and "bit (pb OR nb) 0 = (bit kb 0 \<noteq> (carry = 1))"
    by blast+
qed

lemma foldl_bytes_shift:
  "foldl (\<lambda>acc b. acc * 256 + uint (b::byte)) a bs
     = a * 256 ^ length bs + foldl (\<lambda>acc b. acc * 256 + uint b) 0 bs"
proof (induction bs arbitrary: a)
  case Nil
  show ?case by simp
next
  case (Cons b bs)
  let ?f = "\<lambda>acc (b::byte). acc * 256 + uint b"
  have "foldl ?f a (b # bs) = foldl ?f (a * 256 + uint b) bs" by simp
  also have "\<dots> = (a * 256 + uint b) * 256 ^ length bs + foldl ?f 0 bs"
    by (rule Cons.IH)
  also have "\<dots> = a * 256 ^ length (b # bs) + (uint b * 256 ^ length bs + foldl ?f 0 bs)"
    by (simp only: distrib_right mult.assoc add.assoc length_Cons power_Suc)
  also have "uint b * 256 ^ length bs + foldl ?f 0 bs = foldl ?f (uint b) bs"
    by (rule Cons.IH [symmetric])
  also have "foldl ?f (uint b) bs = foldl ?f 0 (b # bs)" by simp
  finally show ?case .
qed

lemma big_SetBytes_Cons:
  "big_SetBytes (b # bs) = uint b * 256 ^ length bs + big_SetBytes bs"
  using foldl_bytes_shift [of "uint b" bs] by (simp add: big_SetBytes_def)

lemma big_SetBytes_Nil: "big_SetBytes [] = 0"
  by (simp add: big_SetBytes_def)

lemma big_SetBytes_range: "0 \<le> big_SetBytes bs \<and> big_SetBytes bs < 256 ^ length bs"
proof (induction bs)
  case Nil
  show ?case by (simp add: big_SetBytes_Nil)
next
  case (Cons b bs)
  define q :: int where "q = 256 ^ length bs"
  have "uint b \<le> 255" using uint_lt2p [of b] by simp
  moreover have "0 \<le> q" by (simp add: q_def)
  ultimately have "uint b * q \<le> 255 * q"
    by (rule mult_right_mono)
  moreover have "0 \<le> uint b * q" by (simp add: q_def)
  moreover have "0 \<le> big_SetBytes bs" "big_SetBytes bs < q"
    using Cons.IH by (simp_all add: q_def)
  ultimately have "0 \<le> uint b * q + big_SetBytes bs \<and> uint b * q + big_SetBytes bs < 256 * q"
    by linarith
  then show ?case
    by (simp add: big_SetBytes_Cons q_def)
qed

lemma big_SetBytes_concat:
  "big_SetBytes (b # bs) = concat_bit (8 * length bs) (big_SetBytes bs) (uint b)"
proof -
  have p: "(256::int) ^ length bs = 2 ^ (8 * length bs)"
    by (simp add: power_mult)
  have "take_bit (8 * length bs) (big_SetBytes bs) = big_SetBytes bs"
    using big_SetBytes_range [of bs] by (simp add: take_bit_int_eq_self p)
  then show ?thesis
    by (simp add: concat_bit_eq big_SetBytes_Cons push_bit_eq_mult p)
qed

lemma bit_SetBytes_or_Cons:
  assumes "length Pl = length Nl"
  shows "bit (big_SetBytes (pb # Pl) OR big_SetBytes (nb # Nl)) n
     = (if n < 8 * length Pl then bit (big_SetBytes Pl OR big_SetBytes Nl) n
        else bit (pb OR nb) (n - 8 * length Pl))"
  using assms
  by (auto simp add: big_SetBytes_concat bit_or_iff bit_concat_bit_iff bit_uint_iff
      dest: bit_imp_le_length)

lemma naf_list_inv:
  "naf_list prev ks = (Pl, Nl, c) \<Longrightarrow>
     length Pl = length ks \<and> length Nl = length ks \<and> (c = 0 \<or> c = 1)
     \<and> big_SetBytes Pl - big_SetBytes Nl = big_SetBytes ks - uint c * 256 ^ length ks
     \<and> no_adjacent (big_SetBytes Pl OR big_SetBytes Nl)
     \<and> (ks \<noteq> [] \<longrightarrow> bit (big_SetBytes Pl OR big_SetBytes Nl) (8 * length ks - 1)
           \<longrightarrow> (c = 1) = bit prev 0)
     \<and> (ks \<noteq> [] \<longrightarrow> hd ks \<noteq> 0 \<longrightarrow> \<not> bit prev 0 \<longrightarrow> c = 0 \<longrightarrow> hd Pl \<noteq> 0)"
proof (induction ks arbitrary: prev Pl Nl c)
  case Nil
  then show ?case
    by (simp add: big_SetBytes_Nil no_adjacent_def)
next
  case (Cons kb rest)
  obtain Pl0 Nl0 c0 where r0: "naf_list kb rest = (Pl0, Nl0, c0)"
    by (cases "naf_list kb rest") auto
  obtain pb nb c' where rb: "naf_byte kb c0 prev = (pb, nb, c')"
    by (cases "naf_byte kb c0 prev") auto
  from Cons.prems r0 rb have res: "Pl = pb # Pl0" "Nl = nb # Nl0" "c = c'"
    by simp_all
  note ih = Cons.IH [OF r0]
  from ih have len: "length Pl0 = length rest" "length Nl0 = length rest"
    and c0: "c0 = 0 \<or> c0 = 1"
    and val: "big_SetBytes Pl0 - big_SetBytes Nl0
               = big_SetBytes rest - uint c0 * 256 ^ length rest"
    and na: "no_adjacent (big_SetBytes Pl0 OR big_SetBytes Nl0)"
    and top: "rest \<noteq> [] \<Longrightarrow> bit (big_SetBytes Pl0 OR big_SetBytes Nl0) (8 * length rest - 1)
               \<Longrightarrow> (c0 = 1) = bit kb 0"
    by blast+
  note bp = naf_byte_props [OF c0 rb]
  define m where "m = length rest"
  define M where "M = big_SetBytes Pl0 OR big_SetBytes Nl0"
  have bitM: "bit (big_SetBytes Pl OR big_SetBytes Nl) n
     = (if n < 8 * m then bit M n else bit (pb OR nb) (n - 8 * m))" for n
    unfolding res M_def m_def using bit_SetBytes_or_Cons [of Pl0 Nl0 pb nb n] len by simp
  have hi: "\<not> bit (pb OR nb) j" if "8 \<le> j" for j
    using that bit_imp_le_length [of "pb OR nb" j] by auto
  have e1: "uint pb - uint nb = uint kb + uint c0 - 256 * uint c'"
    using bp(2) by linarith
  have "big_SetBytes Pl - big_SetBytes Nl
      = (uint pb - uint nb) * 256 ^ m + (big_SetBytes Pl0 - big_SetBytes Nl0)"
    unfolding res by (simp add: big_SetBytes_Cons len m_def algebra_simps)
  also have "\<dots> = (uint kb + uint c0 - 256 * uint c') * 256 ^ m
        + (big_SetBytes rest - uint c0 * 256 ^ m)"
    by (simp only: e1 val m_def)
  also have "\<dots> = big_SetBytes (kb # rest) - uint c' * 256 ^ length (kb # rest)"
    by (simp add: big_SetBytes_Cons m_def algebra_simps)
  finally have value_ok: "big_SetBytes Pl - big_SetBytes Nl
      = big_SetBytes (kb # rest) - uint c * 256 ^ length (kb # rest)"
    by (simp add: res)
  have na': "no_adjacent (big_SetBytes Pl OR big_SetBytes Nl)"
    unfolding no_adjacent_def
  proof (intro allI notI)
    fix i
    assume a: "bit (big_SetBytes Pl OR big_SetBytes Nl) i
        \<and> bit (big_SetBytes Pl OR big_SetBytes Nl) (Suc i)"
    consider "Suc i < 8 * m" | "Suc i = 8 * m" | "8 * m \<le> i" by linarith
    then show False
    proof cases
      case 1
      with a have "bit M i \<and> bit M (Suc i)" by (simp add: bitM)
      with na show False unfolding no_adjacent_def M_def by blast
    next
      case 2
      then have m0: "rest \<noteq> []" by (auto simp add: m_def)
      from 2 have i: "i = 8 * length rest - 1" "i < 8 * m" by (simp_all add: m_def)
      from a 2 i have "bit M i" "bit (pb OR nb) 0" by (simp_all add: bitM)
      with top [OF m0] i bp(5) show False by (simp add: M_def)
    next
      case 3
      define j where "j = i - 8 * m"
      from a 3 have b: "bit (pb OR nb) j" "bit (pb OR nb) (Suc j)"
        by (simp_all add: bitM j_def Suc_diff_le)
      show False
      proof (cases "j < 7")
        case True
        with bp(3) [of j] b show False by simp
      next
        case False
        then have "8 \<le> Suc j" by simp
        with hi b(2) show False by blast
      qed
    qed
  qed
  have top': "bit (big_SetBytes Pl OR big_SetBytes Nl) (8 * length (kb # rest) - 1)
      \<longrightarrow> (c = 1) = bit prev 0"
  proof
    assume "bit (big_SetBytes Pl OR big_SetBytes Nl) (8 * length (kb # rest) - 1)"
    then have "bit (pb OR nb) 7"
      by (simp add: bitM m_def)
    then show "(c = 1) = bit prev 0"
      using bp(4) by (simp add: res)
  qed
  have lead: "hd (kb # rest) \<noteq> 0 \<longrightarrow> \<not> bit prev 0 \<longrightarrow> c = 0 \<longrightarrow> hd Pl \<noteq> 0"
  proof (intro impI)
    assume k: "hd (kb # rest) \<noteq> 0" and "\<not> bit prev 0" and "c = 0"
    then have "uint pb = uint kb + uint c0 + uint nb"
      using bp(2) by (simp add: res)
    moreover have "uint kb \<noteq> 0" using k by (simp add: uint_0_iff)
    moreover have "0 \<le> uint kb" by simp
    moreover have "0 \<le> uint c0" "0 \<le> uint nb" by simp_all
    ultimately have "0 < uint pb" by linarith
    then show "hd Pl \<noteq> 0" by (auto simp add: res)
  qed
  show ?case
    using len value_ok na' top' lead bp(1) by (simp add: res)
qed

lemma drop_take_update:
  "i < L \<Longrightarrow> L \<le> length xs \<Longrightarrow> drop i (take L (xs[i := v])) = v # drop (Suc i) (take L xs)"
proof -
  assume i: "i < L" and L: "L \<le> length xs"
  have "take L (xs[i := v]) = (take L xs)[i := v]"
    using i by (simp add: take_update_swap)
  moreover have "i < length (take L xs)" using i L by simp
  ultimately show ?thesis
    by (simp add: Cons_nth_drop_Suc [symmetric])
qed

lemma naf_loop_refines:
  assumes "j \<le> length k" "length k \<le> 32" "length p = 33" "length n = 33" "n ! 0 = 0"
    and "naf_list (prevbyte k j) (drop j k)
          = (drop (Suc j) (take (Suc (length k)) p), drop (Suc j) (take (Suc (length k)) n), c)"
  shows "\<exists>p' n' c'. naf_loop k j (p, n, c) = (p', n', c')
           \<and> length p' = 33 \<and> length n' = 33 \<and> n' ! 0 = 0
           \<and> naf_list 0 k = (drop 1 (take (Suc (length k)) p'),
                                drop 1 (take (Suc (length k)) n'), c')"
  using assms
proof (induction j arbitrary: p n c)
  case 0
  then show ?case by (simp add: prevbyte_def)
next
  case (Suc j)
  obtain pb nb c' where rb: "naf_byte (k ! j) c (prevbyte k j) = (pb, nb, c')"
    by (cases "naf_byte (k ! j) c (prevbyte k j)") auto
  have step: "naf_step k j (p, n, c) = (p[Suc j := pb], n[Suc j := nb], c')"
    using rb by (simp add: naf_step_def prevbyte_def)
  have j: "j < length k" using Suc.prems(1) by simp
  have dk: "drop j k = k ! j # drop (Suc j) k"
    using j by (simp add: Cons_nth_drop_Suc)
  have pk: "prevbyte k (Suc j) = k ! j" by (simp add: prevbyte_def)
  have L: "Suc j < Suc (length k)" "Suc (length k) \<le> length p" "Suc (length k) \<le> length n"
    using j Suc.prems by simp_all
  have "naf_list (prevbyte k j) (drop j k)
      = (drop (Suc j) (take (Suc (length k)) (p[Suc j := pb])),
         drop (Suc j) (take (Suc (length k)) (n[Suc j := nb])), c')"
    unfolding dk drop_take_update [OF L(1,2)] drop_take_update [OF L(1,3)]
    using Suc.prems(6) rb by (simp add: pk)
  moreover have "j \<le> length k" using j by simp
  moreover have "length (p[Suc j := pb]) = 33" "length (n[Suc j := nb]) = 33"
    "(n[Suc j := nb]) ! 0 = 0"
    using Suc.prems by simp_all
  ultimately have "\<exists>p' n' c''. naf_loop k j (p[Suc j := pb], n[Suc j := nb], c') = (p', n', c'')
           \<and> length p' = 33 \<and> length n' = 33 \<and> n' ! 0 = 0
           \<and> naf_list 0 k = (drop 1 (take (Suc (length k)) p'),
                                drop 1 (take (Suc (length k)) n'), c'')"
    using Suc.prems(2) by (intro Suc.IH)
  then show ?case
    by (simp add: step)
qed

lemma big_SetBytes_dropWhile: "big_SetBytes (dropWhile (\<lambda>b. b = 0) k) = big_SetBytes k"
  by (induction k) (simp_all add: big_SetBytes_Cons)

lemma big_SetBytes_lower:
  assumes "k \<noteq> []" "hd k \<noteq> 0"
  shows "256 ^ (length k - 1) \<le> big_SetBytes k"
proof -
  obtain b bs where k: "k = b # bs" using assms(1) by (cases k) auto
  have "uint b \<noteq> 0" using assms(2) k by (simp add: uint_0_iff)
  moreover have "0 \<le> uint b" by simp
  ultimately have "1 \<le> uint b" by linarith
  define q :: int where "q = 256 ^ length bs"
  have "0 \<le> q" by (simp add: q_def)
  with \<open>1 \<le> uint b\<close> have "1 * q \<le> uint b * q"
    by (rule mult_right_mono)
  moreover have "0 \<le> big_SetBytes bs" using big_SetBytes_range [of bs] by simp
  ultimately have "q \<le> uint b * q + big_SetBytes bs" by linarith
  then show ?thesis
    by (simp add: k big_SetBytes_Cons q_def)
qed

lemma stripped_length:
  assumes "big_SetBytes k < 2 ^ 256"
  shows "length (dropWhile (\<lambda>b. b = 0) k) \<le> 32"
proof (rule ccontr)
  define s where "s = dropWhile (\<lambda>b. b = 0) k"
  assume "\<not> length (dropWhile (\<lambda>b. b = 0) k) \<le> 32"
  then have len: "33 \<le> length s" by (simp add: s_def)
  then have ne: "s \<noteq> []" by auto
  then have "hd s \<noteq> 0"
    unfolding s_def using hd_dropWhile [of "\<lambda>b. b = 0" k] by simp
  with ne have "256 ^ (length s - 1) \<le> big_SetBytes s"
    by (rule big_SetBytes_lower)
  moreover have "(256::int) ^ 32 \<le> 256 ^ (length s - 1)"
    using len by (intro power_increasing) simp_all
  ultimately have "(256::int) ^ 32 \<le> big_SetBytes k"
    by (simp add: s_def big_SetBytes_dropWhile)
  with assms show False by simp
qed

lemma naf_result:
  assumes len: "length (dropWhile (\<lambda>b. b = 0) k0) \<le> 32"
  shows "\<exists>Pl Nl c. naf_list 0 (dropWhile (\<lambda>b. b = 0) k0) = (Pl, Nl, c)
       \<and> (\<exists>r. naf k0 = Some r
            \<and> nafScalar_Pos r = (if c = 1 then 1 # Pl else Pl)
            \<and> nafScalar_Neg r = (if c = 1 then 0 # Nl else Nl))"
proof -
  define k where "k = dropWhile (\<lambda>b. b = 0) k0"
  have klen: "length k \<le> 32" using len by (simp add: k_def)
  have init: "naf_list (prevbyte k (length k)) (drop (length k) k)
      = (drop (Suc (length k)) (take (Suc (length k)) (replicate 33 0)),
         drop (Suc (length k)) (take (Suc (length k)) (replicate 33 0)), 0)"
    by simp
  have "\<exists>p' n' c'. naf_loop k (length k) (replicate 33 0, replicate 33 0, 0) = (p', n', c')
           \<and> length p' = 33 \<and> length n' = 33 \<and> n' ! 0 = 0
           \<and> naf_list 0 k = (drop 1 (take (Suc (length k)) p'),
                                drop 1 (take (Suc (length k)) n'), c')"
    by (rule naf_loop_refines [OF _ klen _ _ _ init]) simp_all
  then obtain p n c where loop: "naf_loop k (length k) (replicate 33 0, replicate 33 0, 0) = (p, n, c)"
    and lp: "length p = 33" and ln: "length n = 33" and n0: "n ! 0 = 0"
    and nl: "naf_list 0 k = (drop 1 (take (Suc (length k)) p), drop 1 (take (Suc (length k)) n), c)"
    by blast
  define Pl where "Pl = drop 1 (take (Suc (length k)) p)"
  define Nl where "Nl = drop 1 (take (Suc (length k)) n)"
  have c: "c = 0 \<or> c = 1"
    using naf_list_inv [OF nl] by blast
  define r where "r = \<lparr> pos = p[0 := c], start = 1 - c,
                          end' = of_nat (length k + 1), neg = n \<rparr>"
  have nafr: "naf k0 = Some r"
    using klen loop by (simp add: naf_def Let_def k_def [symmetric] r_def)
  have "unat (of_nat (length k + 1) :: byte) = (length k + 1) mod 2 ^ LENGTH(8)"
    by (rule unat_of_nat)
  then have e: "unat (1 + of_nat (length k) :: byte) = Suc (length k)"
    using klen by simp
  have tp: "take (Suc (length k)) (p[0 := c]) = c # Pl"
    using lp by (cases p) (simp_all add: Pl_def)
  have tn: "take (Suc (length k)) n = 0 # Nl"
    using ln n0 by (cases n) (simp_all add: Nl_def)
  have "nafScalar_Pos r = (if c = 1 then 1 # Pl else Pl)"
    using c tp by (auto simp add: nafScalar_Pos_def r_def e)
  moreover have "nafScalar_Neg r = (if c = 1 then 0 # Nl else Nl)"
    using c tn by (auto simp add: nafScalar_Neg_def r_def e)
  ultimately show ?thesis
    using nl nafr unfolding k_def [symmetric] Pl_def [symmetric] Nl_def [symmetric] by blast
qed

text \<open>
  C6.  For every byte slice \<open>k\<close> that encodes an integer in \<open>[0, 2^256)\<close>, \<open>naf k\<close>
  returns (it does not panic) and the slices \<open>Pos\<close> and \<open>Neg\<close> of its result satisfy:
  the integer encoded by \<open>Pos\<close> minus the one encoded by \<open>Neg\<close> is the integer
  encoded by \<open>k\<close>; the two slices have the same length; no two adjacent bit
  positions of \<open>Pos OR Neg\<close> are both set; and \<open>Pos\<close> has no leading zero byte.
\<close>

theorem naf_correct:
  assumes "big_SetBytes k < 2 ^ 256"
  shows "case naf k of None \<Rightarrow> False
     | Some r \<Rightarrow>
         big_SetBytes (nafScalar_Pos r) - big_SetBytes (nafScalar_Neg r) = big_SetBytes k
       \<and> length (nafScalar_Neg r) = length (nafScalar_Pos r)
       \<and> (\<forall>i. \<not> (bit (big_SetBytes (nafScalar_Pos r) OR big_SetBytes (nafScalar_Neg r)) i
                 \<and> bit (big_SetBytes (nafScalar_Pos r) OR big_SetBytes (nafScalar_Neg r)) (Suc i)))
       \<and> (nafScalar_Pos r = [] \<or> hd (nafScalar_Pos r) \<noteq> 0)"
proof -
  define ks where "ks = dropWhile (\<lambda>b. b = 0) k"
  have len: "length ks \<le> 32"
    unfolding ks_def using assms by (rule stripped_length)
  from naf_result [OF len [unfolded ks_def]]
  obtain Pl Nl c r where nl: "naf_list 0 ks = (Pl, Nl, c)"
    and r: "naf k = Some r"
    and P: "nafScalar_Pos r = (if c = 1 then 1 # Pl else Pl)"
    and N: "nafScalar_Neg r = (if c = 1 then 0 # Nl else Nl)"
    unfolding ks_def by blast
  note inv = naf_list_inv [OF nl]
  from inv have lens: "length Pl = length ks" "length Nl = length ks"
    and c: "c = 0 \<or> c = 1"
    and val: "big_SetBytes Pl - big_SetBytes Nl = big_SetBytes ks - uint c * 256 ^ length ks"
    and na: "no_adjacent (big_SetBytes Pl OR big_SetBytes Nl)"
    and top: "ks \<noteq> [] \<Longrightarrow> bit (big_SetBytes Pl OR big_SetBytes Nl) (8 * length ks - 1)
                \<Longrightarrow> (c = 1) = bit (0::byte) 0"
    and lead: "ks \<noteq> [] \<Longrightarrow> hd ks \<noteq> 0 \<Longrightarrow> \<not> bit (0::byte) 0 \<Longrightarrow> c = 0 \<Longrightarrow> hd Pl \<noteq> 0"
    by blast+
  have ksv: "big_SetBytes ks = big_SetBytes k"
    by (simp add: ks_def big_SetBytes_dropWhile)
  have v: "big_SetBytes (nafScalar_Pos r) - big_SetBytes (nafScalar_Neg r) = big_SetBytes k"
    using c val by (auto simp add: P N big_SetBytes_Cons lens ksv)
  have l: "length (nafScalar_Neg r) = length (nafScalar_Pos r)"
    by (simp add: P N lens)
  have a: "\<not> (bit (big_SetBytes (nafScalar_Pos r) OR big_SetBytes (nafScalar_Neg r)) i
                 \<and> bit (big_SetBytes (nafScalar_Pos r) OR big_SetBytes (nafScalar_Neg r)) (Suc i))" for i
  proof (cases "c = 1")
    case False
    with na show ?thesis
      unfolding no_adjacent_def by (simp add: P N)
  next
    case True
    have eq: "length Pl = length Nl" by (simp add: lens)
    have bitM: "bit (big_SetBytes (nafScalar_Pos r) OR big_SetBytes (nafScalar_Neg r)) n
       = (if n < 8 * length ks then bit (big_SetBytes Pl OR big_SetBytes Nl) n
          else n = 8 * length ks)" for n
      using True bit_SetBytes_or_Cons [OF eq, of 1 0 n]
      by (simp add: P N lens bit_1_iff)
    show ?thesis
    proof
      assume h: "bit (big_SetBytes (nafScalar_Pos r) OR big_SetBytes (nafScalar_Neg r)) i
                 \<and> bit (big_SetBytes (nafScalar_Pos r) OR big_SetBytes (nafScalar_Neg r)) (Suc i)"
      consider "Suc i < 8 * length ks" | "Suc i = 8 * length ks" | "8 * length ks \<le> i"
        by linarith
      then show False
      proof cases
        case 1
        with h na show False unfolding no_adjacent_def by (simp add: bitM)
      next
        case 2
        then have ne: "ks \<noteq> []" by auto
        from 2 have "i = 8 * length ks - 1" "i < 8 * length ks" by simp_all
        with h have "bit (big_SetBytes Pl OR big_SetBytes Nl) (8 * length ks - 1)"
          by (simp add: bitM)
        from top [OF ne this] True show False by simp
      next
        case 3
        with h show False by (simp add: bitM)
      qed
    qed
  qed
  have z: "nafScalar_Pos r = [] \<or> hd (nafScalar_Pos r) \<noteq> 0"
  proof (cases "c = 1")
    case True
    then show ?thesis by (simp add: P)
  next
    case False
    with c have c0: "c = 0" by simp
    show ?thesis
    proof (cases "ks = []")
      case True
      with lens c0 show ?thesis by (simp add: P)
    next
      case False
      then have "hd ks \<noteq> 0"
        unfolding ks_def using hd_dropWhile [of "\<lambda>b. b = 0" k] by simp
      from lead [OF False this _ c0] show ?thesis
        by (simp add: P c0)
    qed
  qed
  from v l a z show ?thesis
    by (simp add: r)
qed

theorem naf_correct_witness:
  "big_SetBytes [0xC0] < 2 ^ 256 \<and>
   (case naf [0xC0] of None \<Rightarrow> False
     | Some r \<Rightarrow>
         big_SetBytes (nafScalar_Pos r) - big_SetBytes (nafScalar_Neg r) = big_SetBytes [0xC0]
       \<and> length (nafScalar_Neg r) = length (nafScalar_Pos r)
       \<and> (\<forall>i. \<not> (bit (big_SetBytes (nafScalar_Pos r) OR big_SetBytes (nafScalar_Neg r)) i
                 \<and> bit (big_SetBytes (nafScalar_Pos r) OR big_SetBytes (nafScalar_Neg r)) (Suc i)))
       \<and> (nafScalar_Pos r = [] \<or> hd (nafScalar_Pos r) \<noteq> 0))"
proof -
  have h: "big_SetBytes [0xC0] < 2 ^ 256"
    by (simp add: big_SetBytes_def)
  from naf_correct [OF h] h show ?thesis
    by blast
qed

section \<open>The DER parser against its specification\<close>

lemma byte_high_bit: "((b::byte) AND 0x80 = 0) = (\<not> bit b 7)"
proof -
  have "(0x80 :: byte) = 2 ^ 7" by simp
  then show ?thesis
    by (simp only: and_exp_eq_0_iff_not_bit)
qed

lemma frame_drop:
  "drop (6 + length R) (t0 # L # t1 # rl # R @ t2 # sl # S) = S"
proof -
  have "length ([t0, L, t1, rl] @ R @ [t2, sl]) = 6 + length R" by simp
  then have "drop (6 + length R) (([t0, L, t1, rl] @ R @ [t2, sl]) @ S) = S"
    by (metis append_eq_conv_conj)
  then show ?thesis by simp
qed

lemma frame_nth:
  fixes R S :: "byte list"
  assumes sg: "sg = [t0, L, t1, rl] @ R @ [t2, sl] @ S"
  shows "sg ! 0 = t0" "sg ! 1 = L" "sg ! 2 = t1" "sg ! 3 = rl"
    "R \<noteq> [] \<Longrightarrow> sg ! 4 = hd R"
    "1 < length R \<Longrightarrow> sg ! 5 = R ! 1"
    "sg ! (4 + length R) = t2"
    "sg ! (5 + length R) = sl"
    "S \<noteq> [] \<Longrightarrow> sg ! (6 + length R) = hd S"
    "1 < length S \<Longrightarrow> sg ! (7 + length R) = S ! 1"
    "length sg = 6 + length R + length S"
    "take (length R) (drop 4 sg) = R"
    "take (length S) (drop (6 + length R) sg) = S"
  unfolding sg
  by (simp_all add: nth_append hd_conv_nth nth_Cons' frame_drop)

lemma curveN_lt: "curveN < 256 ^ 32"
  by (simp add: curveN_def)

lemma curveN_pos: "0 < curveN"
  by (simp add: curveN_def)

lemma scalar_check:
  "(if 32 < length (dropWhile (\<lambda>b. b = 0) B) then E1
    else (case ModNScalar_SetByteSlice (dropWhile (\<lambda>b. b = 0) B) of
            (x, ov) \<Rightarrow> if ov then E1 else if ModNScalar_IsZero x then E2 else K x))
   = (if curveN \<le> big_SetBytes B then E1
      else if big_SetBytes B = 0 then E2 else K (big_SetBytes B))"
proof -
  define bs where "bs = dropWhile (\<lambda>b. b = 0) B"
  have v: "big_SetBytes bs = big_SetBytes B"
    by (simp add: bs_def big_SetBytes_dropWhile)
  have nonneg: "0 \<le> big_SetBytes B"
    using big_SetBytes_range [of B] by simp
  show ?thesis
  proof (cases "32 < length bs")
    case True
    then have ne: "bs \<noteq> []" by auto
    then have "hd bs \<noteq> 0"
      unfolding bs_def using hd_dropWhile [of "\<lambda>b. b = 0" B] by simp
    with ne have "256 ^ (length bs - 1) \<le> big_SetBytes bs"
      by (rule big_SetBytes_lower)
    moreover have "(256::int) ^ 32 \<le> 256 ^ (length bs - 1)"
      using True by (intro power_increasing) simp_all
    ultimately have "curveN \<le> big_SetBytes B"
      using curveN_lt v by linarith
    with True show ?thesis
      by (simp add: bs_def [symmetric])
  next
    case False
    then have t: "take 32 bs = bs" by simp
    have m: "big_SetBytes B mod curveN = big_SetBytes B" if "\<not> curveN \<le> big_SetBytes B"
      using that nonneg by simp
    from False show ?thesis
      unfolding bs_def [symmetric]
      by (simp add: ModNScalar_SetByteSlice_def Let_def t v ModNScalar_IsZero_def m)
  qed
qed


lemma parse_unfold:
  assumes sg: "sg = [t0, L, t1, rl] @ R @ [t2, sl] @ S"
    and rl: "unat rl = length R" and sl: "unat sl = length S"
    and len: "8 \<le> length sg" "length sg \<le> 72"
    and t0: "t0 = 0x30" and L: "unat L = length sg - 2"
  shows "ParseDERSignature sg =
     (if t1 \<noteq> 0x02 then Inl ErrSigInvalidRIntID
      else if length R = 0 then Inl ErrSigZeroRLen
      else if sg ! 4 AND 0x80 \<noteq> 0 then Inl ErrSigNegativeR
      else if length R > 1 \<and> sg ! 4 = 0 \<and> sg ! (4 + 1) AND 0x80 = 0
        then Inl ErrSigTooMuchRPadding
      else if t2 \<noteq> 0x02 then Inl ErrSigInvalidSIntID
      else if length S = 0 then Inl ErrSigZeroSLen
      else if sg ! (4 + length R + 1 + 1) AND 0x80 \<noteq> 0 then Inl ErrSigNegativeS
      else if length S > 1 \<and> sg ! (4 + length R + 1 + 1) = 0
                \<and> sg ! (4 + length R + 1 + 1 + 1) AND 0x80 = 0
        then Inl ErrSigTooMuchSPadding
      else
         if 32 < length (dropWhile (\<lambda>b. b = 0) R) then Inl ErrSigRTooBig
         else (case ModNScalar_SetByteSlice (dropWhile (\<lambda>b. b = 0) R) of (rv, overflowR) \<Rightarrow>
              if overflowR then Inl ErrSigRTooBig
              else if ModNScalar_IsZero rv then Inl ErrSigRIsZero
              else
                if 32 < length (dropWhile (\<lambda>b. b = 0) S) then Inl ErrSigSTooBig
                else (case ModNScalar_SetByteSlice (dropWhile (\<lambda>b. b = 0) S) of (sv, overflowS) \<Rightarrow>
                  if overflowS then Inl ErrSigSTooBig
                  else if ModNScalar_IsZero sv then Inl ErrSigSIsZero
                  else Inr (NewSignature rv sv))))"
proof -
  note f = frame_nth [OF sg]
  have a: "sg ! 0 = 0x30" "unat (sg ! 1) = length sg - 2" "unat (sg ! 3) = length R"
    using f(1,2,4) t0 L rl by simp_all
  have b: "sg ! (4 + length R + 1) = sl" "sg ! (4 + length R) = t2" "sg ! 2 = t1"
    using f(7,8,3) by (simp_all add: add.commute)
  have c: "\<not> length sg < 8" "\<not> 72 < length sg" "\<not> length sg \<le> 4 + length R"
    "\<not> length sg \<le> 4 + length R + 1" "4 + length R + 1 + 1 + length S = length sg"
    using len f(11) by simp_all
  have d: "take (length R) (drop 4 sg) = R"
    "take (length S) (drop (4 + length R + 1 + 1) sg) = S"
    using f(12,13) by (simp_all add: add.commute)
  show ?thesis
    unfolding ParseDERSignature_def Let_def minSigLen_def maxSigLen_def sequenceOffset_def
      dataLenOffset_def rTypeOffset_def rLenOffset_def rOffset_def asn1SequenceID_def
      asn1IntegerID_def
    by (simp only: a b c d sl if_False if_True refl not_True_eq_False not_False_eq_True)
qed


lemma if_chain:
  "c = c' \<Longrightarrow> (\<not> c' \<Longrightarrow> y = y') \<Longrightarrow> (if c then x else y) = (if c' then x else y')"
  by simp

lemma parse_framed:
  assumes sg: "sg = [t0, L, t1, rl] @ R @ [t2, sl] @ S"
    and rl: "unat rl = length R" and sl: "unat sl = length S"
  shows "ParseDERSignature sg =
     (if length sg < 8 then Inl ErrSigTooShort
      else if 72 < length sg then Inl ErrSigTooLong
      else if t0 \<noteq> 0x30 then Inl ErrSigInvalidSeqID
      else if unat L \<noteq> length sg - 2 then Inl ErrSigInvalidDataLen
      else der_decode t1 R t2 S)"
proof -
  note f = frame_nth [OF sg]
  consider "length sg < 8" | "8 \<le> length sg" "72 < length sg"
    | "8 \<le> length sg" "length sg \<le> 72" "t0 \<noteq> 0x30"
    | "8 \<le> length sg" "length sg \<le> 72" "t0 = 0x30" "unat L \<noteq> length sg - 2"
    | "8 \<le> length sg" "length sg \<le> 72" "t0 = 0x30" "unat L = length sg - 2"
    by linarith
  then show ?thesis
  proof cases
    case 1
    then show ?thesis
      unfolding ParseDERSignature_def Let_def minSigLen_def
      by (simp only: if_True)
  next
    case 2
    then have "\<not> length sg < 8" by simp
    with 2 show ?thesis
      unfolding ParseDERSignature_def Let_def minSigLen_def maxSigLen_def
      by (simp only: if_True if_False)
  next
    case 3
    then have "\<not> length sg < 8" "\<not> 72 < length sg" by simp_all
    with 3 show ?thesis
      unfolding ParseDERSignature_def Let_def minSigLen_def maxSigLen_def sequenceOffset_def
        asn1SequenceID_def
      by (simp only: f(1) if_True if_False not_False_eq_True)
  next
    case 4
    then have "\<not> length sg < 8" "\<not> 72 < length sg" by simp_all
    with 4 show ?thesis
      unfolding ParseDERSignature_def Let_def minSigLen_def maxSigLen_def sequenceOffset_def
        asn1SequenceID_def dataLenOffset_def
      by (simp only: f(1,2) if_True if_False not_False_eq_True not_True_eq_False refl)
  next
    case 5
    have p4: "sg ! 4 = hd R" if "R \<noteq> []" using that f(5) by simp
    have p5: "sg ! (4 + 1) = R ! 1" if "1 < length R" using that f(6) by simp
    have s4: "sg ! (4 + length R + 1 + 1) = hd S" if "S \<noteq> []"
      using that f(9) by (simp add: add.commute)
    have s5: "sg ! (4 + length R + 1 + 1 + 1) = S ! 1" if "1 < length S"
      using that f(10) by (simp add: add.commute)
    have h0: "bs ! 0 = hd bs" if "bs \<noteq> []" for bs :: "byte list"
      using that by (simp add: hd_conv_nth)
    have nb: "(b AND 0x80 \<noteq> 0) = bit b 7" for b :: byte
      using byte_high_bit [of b] by simp
    have tail: "(if 32 < length (dropWhile (\<lambda>b. b = 0) R) then Inl ErrSigRTooBig
         else (case ModNScalar_SetByteSlice (dropWhile (\<lambda>b. b = 0) R) of (rv, overflowR) \<Rightarrow>
              if overflowR then Inl ErrSigRTooBig
              else if ModNScalar_IsZero rv then Inl ErrSigRIsZero
              else
                if 32 < length (dropWhile (\<lambda>b. b = 0) S) then Inl ErrSigSTooBig
                else (case ModNScalar_SetByteSlice (dropWhile (\<lambda>b. b = 0) S) of (sv, overflowS) \<Rightarrow>
                  if overflowS then Inl ErrSigSTooBig
                  else if ModNScalar_IsZero sv then Inl ErrSigSIsZero
                  else Inr (NewSignature rv sv))))
      = (if curveN \<le> big_SetBytes R then Inl ErrSigRTooBig
         else if big_SetBytes R = 0 then Inl ErrSigRIsZero
         else if curveN \<le> big_SetBytes S then Inl ErrSigSTooBig
         else if big_SetBytes S = 0 then Inl ErrSigSIsZero
         else Inr \<lparr> sig_r = big_SetBytes R, sig_s = big_SetBytes S, sig_v = 0xff \<rparr>)"
      by (simp only: scalar_check NewSignature_def)
    have u: "ParseDERSignature sg = der_decode t1 R t2 S"
      unfolding parse_unfold [OF sg rl sl 5] der_decode_def tail
    proof (intro if_chain)
      show "(length R = 0) = (R = [])" by simp
      show "(sg ! 4 AND 0x80 \<noteq> 0) = bit (hd R) 7" if "R \<noteq> []"
        by (simp only: p4 [OF that] nb)
      show "(length R > 1 \<and> sg ! 4 = 0 \<and> sg ! (4 + 1) AND 0x80 = 0) = der_padded R"
        if "R \<noteq> []"
      proof (cases "1 < length R")
        case True
        show ?thesis
          unfolding der_padded_def
          by (simp only: p4 [OF that] p5 [OF True] h0 [OF that] byte_high_bit)
      next
        case False
        then show ?thesis
          unfolding der_padded_def by (simp only: simp_thms)
      qed
      show "(length S = 0) = (S = [])" by simp
      show "(sg ! (4 + length R + 1 + 1) AND 0x80 \<noteq> 0) = bit (hd S) 7" if "S \<noteq> []"
        by (simp only: s4 [OF that] nb)
      show "(length S > 1 \<and> sg ! (4 + length R + 1 + 1) = 0
                \<and> sg ! (4 + length R + 1 + 1 + 1) AND 0x80 = 0) = der_padded S"
        if "S \<noteq> []"
      proof (cases "1 < length S")
        case True
        show ?thesis
          unfolding der_padded_def
          by (simp only: s4 [OF that] s5 [OF True] h0 [OF that] byte_high_bit)
      next
        case False
        then show ?thesis
          unfolding der_padded_def by (simp only: simp_thms)
      qed
    qed (rule refl)+
    with 5 show ?thesis by simp
  qed
qed

lemma unat_of_nat_byte: "n < 256 \<Longrightarrow> unat (of_nat n :: byte) = n"
  by (simp add: unat_of_nat)

lemma der_frame_parse:
  assumes "der_frame sg R S"
  shows "ParseDERSignature sg =
     (if curveN \<le> big_SetBytes R then Inl ErrSigRTooBig
      else if big_SetBytes R = 0 then Inl ErrSigRIsZero
      else if curveN \<le> big_SetBytes S then Inl ErrSigSTooBig
      else if big_SetBytes S = 0 then Inl ErrSigSIsZero
      else Inr \<lparr> sig_r = big_SetBytes R, sig_s = big_SetBytes S, sig_v = 0xff \<rparr>)"
proof -
  from assms [unfolded der_frame_def]
  have sg: "sg = [0x30, of_nat (length sg - 2), 0x02, of_nat (length R)] @ R
             @ [0x02, of_nat (length S)] @ S"
    and len: "8 \<le> length sg" "length sg \<le> 72"
    and ok: "der_int_ok R" "der_int_ok S"
    by blast+
  have l: "length sg = 6 + length R + length S"
    by (rule frame_nth(11) [OF sg])
  have rl: "unat (of_nat (length R) :: byte) = length R"
    using l len by (intro unat_of_nat_byte) simp
  have sl: "unat (of_nat (length S) :: byte) = length S"
    using l len by (intro unat_of_nat_byte) simp
  have L: "unat (of_nat (length sg - 2) :: byte) = length sg - 2"
    using len by (intro unat_of_nat_byte) simp
  have "ParseDERSignature sg = der_decode 0x02 R 0x02 S"
    using parse_framed [OF sg rl sl] len L by simp
  then show ?thesis
    using ok by (simp add: der_decode_def der_int_ok_def)
qed

lemma parse_missing:
  assumes h: "der_header sg"
  shows "length sg \<le> 4 + unat (sg ! 3) \<Longrightarrow> ParseDERSignature sg = Inl ErrSigMissingSTypeID"
    and "length sg = 5 + unat (sg ! 3) \<Longrightarrow> ParseDERSignature sg = Inl ErrSigMissingSLen"
    and "5 + unat (sg ! 3) < length sg
          \<Longrightarrow> 6 + unat (sg ! 3) + unat (sg ! (5 + unat (sg ! 3))) \<noteq> length sg
          \<Longrightarrow> ParseDERSignature sg = Inl ErrSigInvalidSLen"
proof -
  from h have a: "\<not> length sg < 8" "\<not> 72 < length sg" "sg ! 0 = 0x30"
    "unat (sg ! 1) = length sg - 2"
    by (simp_all add: der_header_def)
  show "ParseDERSignature sg = Inl ErrSigMissingSTypeID" if "length sg \<le> 4 + unat (sg ! 3)"
    unfolding ParseDERSignature_def Let_def minSigLen_def maxSigLen_def sequenceOffset_def
      dataLenOffset_def rTypeOffset_def rLenOffset_def rOffset_def asn1SequenceID_def
    by (simp only: a that if_True if_False refl not_True_eq_False)
  show "ParseDERSignature sg = Inl ErrSigMissingSLen" if "length sg = 5 + unat (sg ! 3)"
  proof -
    from that have b: "\<not> length sg \<le> 4 + unat (sg ! 3)" "length sg \<le> 4 + unat (sg ! 3) + 1"
      by simp_all
    show ?thesis
      unfolding ParseDERSignature_def Let_def minSigLen_def maxSigLen_def sequenceOffset_def
        dataLenOffset_def rTypeOffset_def rLenOffset_def rOffset_def asn1SequenceID_def
      by (simp only: a b if_True if_False refl not_True_eq_False not_False_eq_True)
  qed
  show "ParseDERSignature sg = Inl ErrSigInvalidSLen"
    if "5 + unat (sg ! 3) < length sg"
      and "6 + unat (sg ! 3) + unat (sg ! (5 + unat (sg ! 3))) \<noteq> length sg"
  proof -
    from that have b: "\<not> length sg \<le> 4 + unat (sg ! 3)"
      "\<not> length sg \<le> 4 + unat (sg ! 3) + 1"
      "4 + unat (sg ! 3) + 1 + 1 + unat (sg ! (4 + unat (sg ! 3) + 1)) \<noteq> length sg"
      by (simp_all add: add.commute add.left_commute)
    show ?thesis
      unfolding ParseDERSignature_def Let_def minSigLen_def maxSigLen_def sequenceOffset_def
        dataLenOffset_def rTypeOffset_def rLenOffset_def rOffset_def asn1SequenceID_def
      by (simp only: a b if_True if_False refl not_True_eq_False not_False_eq_True)
  qed
qed

lemma take_4_nth: "4 \<le> length xs \<Longrightarrow> take 4 xs = [xs ! 0, xs ! 1, xs ! 2, xs ! 3]"
proof -
  assume "4 \<le> length xs"
  then obtain a b c d r where "xs = a # b # c # d # r"
    by (auto simp add: numeral_eq_Suc Suc_le_length_iff)
  then show ?thesis by simp
qed

lemma take_2_nth: "2 \<le> length xs \<Longrightarrow> take 2 xs = [xs ! 0, xs ! 1]"
proof -
  assume "2 \<le> length xs"
  then obtain a b r where "xs = a # b # r"
    by (auto simp add: numeral_eq_Suc Suc_le_length_iff)
  then show ?thesis by simp
qed

lemma frame_exists:
  assumes "8 \<le> length sg" and "5 + unat (sg ! 3) < length sg"
    and "6 + unat (sg ! 3) + unat (sg ! (5 + unat (sg ! 3))) = length sg"
  shows "\<exists>R S. sg = [sg ! 0, sg ! 1, sg ! 2, sg ! 3] @ R
                   @ [sg ! (4 + unat (sg ! 3)), sg ! (5 + unat (sg ! 3))] @ S
          \<and> length R = unat (sg ! 3) \<and> length S = unat (sg ! (5 + unat (sg ! 3)))"
proof -
  define n where "n = unat (sg ! 3)"
  define R where "R = take n (drop 4 sg)"
  define S where "S = drop (6 + n) sg"
  have len: "6 + n \<le> length sg" "4 \<le> length sg" using assms by (simp_all add: n_def)
  have lR: "length R = n" using len by (simp add: R_def)
  have lS: "length S = unat (sg ! (5 + n))" using assms(3) by (simp add: S_def n_def)
  have t4: "take 4 sg = [sg ! 0, sg ! 1, sg ! 2, sg ! 3]"
    using len by (intro take_4_nth)
  have e1: "sg = take 4 sg @ drop 4 sg"
    by (rule append_take_drop_id [symmetric])
  have e2: "drop 4 sg = R @ drop n (drop 4 sg)"
    unfolding R_def by (rule append_take_drop_id [symmetric])
  have e3: "drop n (drop 4 sg) = drop (4 + n) sg"
    by (simp add: add.commute)
  have e4: "drop (4 + n) sg = take 2 (drop (4 + n) sg) @ drop 2 (drop (4 + n) sg)"
    by (rule append_take_drop_id [symmetric])
  have e5: "drop 2 (drop (4 + n) sg) = S"
    by (simp add: S_def add.commute)
  have e6: "take 2 (drop (4 + n) sg) = [sg ! (4 + n), sg ! (5 + n)]"
    using len take_2_nth [of "drop (4 + n) sg"] by (simp add: add.commute)
  have "drop 4 sg = R @ [sg ! (4 + n), sg ! (5 + n)] @ S"
    using e2 e3 e4 e5 e6 by metis
  with e1 t4 have "sg = [sg ! 0, sg ! 1, sg ! 2, sg ! 3] @ R @ [sg ! (4 + n), sg ! (5 + n)] @ S"
    by metis
  with lR lS show ?thesis unfolding n_def by blast
qed

lemma parse_early:
  shows "length sg < 8 \<Longrightarrow> ParseDERSignature sg = Inl ErrSigTooShort"
    and "72 < length sg \<Longrightarrow> ParseDERSignature sg = Inl ErrSigTooLong"
    and "8 \<le> length sg \<Longrightarrow> length sg \<le> 72 \<Longrightarrow> sg ! 0 \<noteq> 0x30
           \<Longrightarrow> ParseDERSignature sg = Inl ErrSigInvalidSeqID"
    and "8 \<le> length sg \<Longrightarrow> length sg \<le> 72 \<Longrightarrow> sg ! 0 = 0x30
           \<Longrightarrow> unat (sg ! 1) \<noteq> length sg - 2
           \<Longrightarrow> ParseDERSignature sg = Inl ErrSigInvalidDataLen"
proof -
  show "ParseDERSignature sg = Inl ErrSigTooShort" if "length sg < 8"
    unfolding ParseDERSignature_def Let_def minSigLen_def
    by (simp only: that if_True)
  show "ParseDERSignature sg = Inl ErrSigTooLong" if "72 < length sg"
  proof -
    from that have "\<not> length sg < 8" by simp
    with that show ?thesis
      unfolding ParseDERSignature_def Let_def minSigLen_def maxSigLen_def
      by (simp only: if_True if_False)
  qed
  show "ParseDERSignature sg = Inl ErrSigInvalidSeqID"
    if "8 \<le> length sg" "length sg \<le> 72" "sg ! 0 \<noteq> 0x30"
  proof -
    from that have "\<not> length sg < 8" "\<not> 72 < length sg" by simp_all
    with that(3) show ?thesis
      unfolding ParseDERSignature_def Let_def minSigLen_def maxSigLen_def sequenceOffset_def
        asn1SequenceID_def
      by (simp only: if_True if_False not_False_eq_True)
  qed
  show "ParseDERSignature sg = Inl ErrSigInvalidDataLen"
    if "8 \<le> length sg" "length sg \<le> 72" "sg ! 0 = 0x30" "unat (sg ! 1) \<noteq> length sg - 2"
  proof -
    from that have "\<not> length sg < 8" "\<not> 72 < length sg" by simp_all
    with that(3,4) show ?thesis
      unfolding ParseDERSignature_def Let_def minSigLen_def maxSigLen_def sequenceOffset_def
        asn1SequenceID_def dataLenOffset_def
      by (simp only: if_True if_False not_False_eq_True not_True_eq_False refl)
  qed
qed

lemma parse_accept_wellformed:
  assumes p: "ParseDERSignature sg = Inr x"
  shows "der_wellformed sg"
proof -
  have l8: "8 \<le> length sg"
    using p parse_early(1) [of sg] by (cases "length sg < 8") simp_all
  have l72: "length sg \<le> 72"
    using p parse_early(2) [of sg] by (cases "72 < length sg") simp_all
  have s0: "sg ! 0 = 0x30"
    using p parse_early(3) [OF l8 l72] by (cases "sg ! 0 = 0x30") simp_all
  have s1: "unat (sg ! 1) = length sg - 2"
    using p parse_early(4) [OF l8 l72 s0] by (cases "unat (sg ! 1) = length sg - 2") simp_all
  have h: "der_header sg"
    using l8 l72 s0 s1 by (simp add: der_header_def)
  define n where "n = unat (sg ! 3)"
  have a1: "\<not> length sg \<le> 4 + n"
    using p parse_missing(1) [OF h] unfolding n_def by (cases "length sg \<le> 4 + unat (sg ! 3)") simp_all
  have a2: "length sg \<noteq> 5 + n"
    using p parse_missing(2) [OF h] unfolding n_def by (cases "length sg = 5 + unat (sg ! 3)") simp_all
  from a1 a2 have a3: "5 + n < length sg" by simp
  have a4: "6 + n + unat (sg ! (5 + n)) = length sg"
    using p parse_missing(3) [OF h a3 [unfolded n_def]] unfolding n_def
    by (cases "6 + unat (sg ! 3) + unat (sg ! (5 + unat (sg ! 3))) = length sg") simp_all
  from frame_exists [OF l8 a3 [unfolded n_def] a4 [unfolded n_def]]
  obtain R S where sg: "sg = [sg ! 0, sg ! 1, sg ! 2, sg ! 3] @ R
                   @ [sg ! (4 + n), sg ! (5 + n)] @ S"
    and lR: "length R = n" and lS: "length S = unat (sg ! (5 + n))"
    unfolding n_def by blast
  have "ParseDERSignature sg = der_decode (sg ! 2) R (sg ! (4 + n)) S"
    using parse_framed [OF sg lR [symmetric, unfolded n_def] lS [symmetric]] l8 l72 s0 s1
    by simp
  with p have d: "der_decode (sg ! 2) R (sg ! (4 + n)) S = Inr x" by simp
  then have t: "sg ! 2 = 0x02" "sg ! (4 + n) = 0x02"
    and ok: "der_int_ok R" "der_int_ok S"
    and rng: "\<not> curveN \<le> big_SetBytes R" "big_SetBytes R \<noteq> 0"
      "\<not> curveN \<le> big_SetBytes S" "big_SetBytes S \<noteq> 0"
    unfolding der_decode_def der_int_ok_def by (simp_all split: if_splits)
  have b1: "sg ! 1 = of_nat (length sg - 2)"
    using s1 [symmetric] by simp
  have b3: "sg ! 3 = of_nat (length R)"
    using lR by (simp add: n_def)
  have b5: "sg ! (5 + n) = of_nat (length S)"
    using lS by simp
  have "sg = [0x30, of_nat (length sg - 2), 0x02, of_nat (length R)] @ R
             @ [0x02, of_nat (length S)] @ S"
    using sg s0 t b1 b3 b5 by metis
  then have "der_frame sg R S"
    unfolding der_frame_def using l8 l72 ok by blast
  moreover have "1 \<le> big_SetBytes R" "1 \<le> big_SetBytes S"
    using rng big_SetBytes_range [of R] big_SetBytes_range [of S] by linarith+
  ultimately show ?thesis
    unfolding der_wellformed_def using rng by (intro exI [of _ R] exI [of _ S]) simp
qed

lemma parse_accepts_iff: "(\<exists>x. ParseDERSignature sg = Inr x) \<longleftrightarrow> der_wellformed sg"
proof
  assume "\<exists>x. ParseDERSignature sg = Inr x"
  then show "der_wellformed sg" using parse_accept_wellformed by blast
next
  assume "der_wellformed sg"
  then obtain R S where f: "der_frame sg R S"
    and rng: "1 \<le> big_SetBytes R" "big_SetBytes R < curveN"
             "1 \<le> big_SetBytes S" "big_SetBytes S < curveN"
    unfolding der_wellformed_def by blast
  show "\<exists>x. ParseDERSignature sg = Inr x"
    using der_frame_parse [OF f] rng by simp
qed

lemma be_bytes_length: "length (be_bytes n x) = n"
  by (induction n arbitrary: x) simp_all

lemma be_bytes_value: "big_SetBytes (be_bytes n x) = x mod 256 ^ n"
proof (induction n arbitrary: x)
  case 0
  show ?case by (simp add: big_SetBytes_Nil)
next
  case (Suc n)
  have u: "uint (of_int x :: byte) = x mod 256"
    by (simp add: uint_word_of_int take_bit_eq_mod)
  have "big_SetBytes (be_bytes (Suc n) x) = (x div 256 mod 256 ^ n) * 256 + x mod 256"
    by (simp add: big_SetBytes_snoc Suc.IH u)
  also have "\<dots> = x mod (256 * 256 ^ n)"
    using zmod_zmult2_eq [of "256 ^ n" x 256] by (simp add: mult.commute)
  finally show ?case by simp
qed

lemma canon_trim_props:
  "bs \<noteq> [] \<Longrightarrow> \<not> bit (hd bs) 7 \<Longrightarrow>
     der_int_ok (canon_trim bs) \<and> big_SetBytes (canon_trim bs) = big_SetBytes bs
     \<and> length (canon_trim bs) \<le> length bs"
proof (induction bs rule: canon_trim.induct)
  case (1 a b rest)
  show ?case
  proof (cases "a = 0 \<and> b AND 0x80 = 0")
    case True
    then have "\<not> bit (hd (b # rest)) 7" by (simp add: byte_high_bit)
    with 1(1) [OF True] True show ?thesis
      by (simp add: big_SetBytes_Cons [of 0])
  next
    case False
    then have "canon_trim (a # b # rest) = a # b # rest" by auto
    moreover have "\<not> der_padded (a # b # rest)"
      using False by (auto simp add: der_padded_def byte_high_bit)
    ultimately show ?thesis
      using 1(3) by (simp add: der_int_ok_def)
  qed
qed (simp_all add: der_int_ok_def der_padded_def)

lemma canon_trim_scalar:
  assumes "0 \<le> x" "x < curveN"
  defines "c \<equiv> canon_trim (0 # ModNScalar_PutBytesUnchecked x)"
  shows "der_int_ok c" "big_SetBytes c = x" "1 \<le> length c" "length c \<le> 33"
proof -
  have "x < 256 ^ 32" using assms(2) curveN_lt by linarith
  with assms(1) have v: "big_SetBytes (0 # be_bytes 32 x) = x"
    by (simp add: big_SetBytes_Cons be_bytes_value)
  have p: "der_int_ok c \<and> big_SetBytes c = big_SetBytes (0 # be_bytes 32 x)
     \<and> length c \<le> length (0 # be_bytes 32 x)"
    unfolding c_def ModNScalar_PutBytesUnchecked_def
    by (rule canon_trim_props) simp_all
  from p show "der_int_ok c" by blast
  from p v show "big_SetBytes c = x" by simp
  from p show "length c \<le> 33" by (simp add: be_bytes_length)
  from p have "c \<noteq> []" by (auto simp add: der_int_ok_def)
  then show "1 \<le> length c" by (cases c) simp_all
qed

lemma curveN_odd: "curveN = 2 * (curveN div 2) + 1"
  by (simp add: curveN_def)

lemma low_s:
  assumes "1 \<le> x" "x < curveN"
  defines "y \<equiv> (if ModNScalar_IsOverHalfOrder x then ModNScalar_Negate x else x)"
  shows "y = min x (curveN - x)" "1 \<le> y" "y < curveN" "y \<le> curveN div 2"
proof -
  have neg: "(- x) mod curveN = curveN - x"
  proof -
    have "0 \<le> curveN - x" "curveN - x < curveN" using assms(1,2) by simp_all
    then have "(curveN - x) mod curveN = curveN - x"
      by (rule mod_pos_pos_trivial)
    then show ?thesis by simp
  qed
  show y: "y = min x (curveN - x)"
    unfolding y_def ModNScalar_IsOverHalfOrder_def ModNScalar_Negate_def neg
    using curveN_odd by (auto simp add: min_def)
  show "1 \<le> y" "y < curveN" using y assms(1,2) by (auto simp add: min_def)
  show "y \<le> curveN div 2" using y curveN_odd by (auto simp add: min_def)
qed

lemma Serialize_frame:
  assumes r: "1 \<le> sig_r sg" "sig_r sg < curveN" and s: "1 \<le> sig_s sg" "sig_s sg < curveN"
  shows "\<exists>R S. der_frame (Serialize sg) R S \<and> big_SetBytes R = sig_r sg
           \<and> big_SetBytes S = min (sig_s sg) (curveN - sig_s sg)"
proof -
  define sigS where "sigS = (if ModNScalar_IsOverHalfOrder (sig_s sg)
                  then ModNScalar_Negate (sig_s sg) else sig_s sg)"
  define cR where "cR = canon_trim (0 # ModNScalar_PutBytesUnchecked (sig_r sg))"
  define cS where "cS = canon_trim (0 # ModNScalar_PutBytesUnchecked sigS)"
  note ls = low_s [OF s, folded sigS_def]
  have r0: "0 \<le> sig_r sg" using r by simp
  have s0: "0 \<le> sigS" using ls(2) by simp
  note pR = canon_trim_scalar [OF r0 r(2), folded cR_def]
  note pS = canon_trim_scalar [OF s0 ls(3), folded cS_def]
  have ser: "Serialize sg = [0x30, of_nat (6 + length cR + length cS - 2), 0x02, of_nat (length cR)]
         @ cR @ [0x02, of_nat (length cS)] @ cS"
    by (simp add: Serialize_def Let_def sigS_def [symmetric] cR_def [symmetric]
        cS_def [symmetric] asn1SequenceID_def asn1IntegerID_def)
  have len: "length (Serialize sg) = 6 + length cR + length cS"
    by (simp add: ser)
  have "der_frame (Serialize sg) cR cS"
    unfolding der_frame_def len using pR pS ser by simp
  with pR(2) pS(2) ls(1) show ?thesis by blast
qed

text \<open>
  C9.  \<open>ParseDERSignature\<close> accepts exactly the well-formed inputs: total length in
  \<open>[8, 72]\<close>, outer length byte equal to the total length minus 2, sequence and integer
  tags, R and S non-negative, minimally encoded and in \<open>[1, n - 1]\<close>.  Every violated
  condition yields its own error kind: the framing errors are decided on the raw
  input, and on a framed input the result is \<open>der_decode\<close>, the kind of the first
  violated condition.  In particular a well-framed input whose R equals the group
  order fails with \<open>ErrSigRTooBig\<close>.
\<close>

theorem ParseDERSignature_checks:
  "((\<exists>x. ParseDERSignature sg = Inr x) \<longleftrightarrow> der_wellformed sg)
   \<and> (length sg < 8 \<longrightarrow> ParseDERSignature sg = Inl ErrSigTooShort)
   \<and> (72 < length sg \<longrightarrow> ParseDERSignature sg = Inl ErrSigTooLong)
   \<and> (8 \<le> length sg \<and> length sg \<le> 72 \<and> sg ! 0 \<noteq> 0x30
        \<longrightarrow> ParseDERSignature sg = Inl ErrSigInvalidSeqID)
   \<and> (8 \<le> length sg \<and> length sg \<le> 72 \<and> sg ! 0 = 0x30 \<and> unat (sg ! 1) \<noteq> length sg - 2
        \<longrightarrow> ParseDERSignature sg = Inl ErrSigInvalidDataLen)
   \<and> (der_header sg \<and> length sg \<le> 4 + unat (sg ! 3)
        \<longrightarrow> ParseDERSignature sg = Inl ErrSigMissingSTypeID)
   \<and> (der_header sg \<and> length sg = 5 + unat (sg ! 3)
        \<longrightarrow> ParseDERSignature sg = Inl ErrSigMissingSLen)
   \<and> (der_header sg \<and> 5 + unat (sg ! 3) < length sg
          \<and> 6 + unat (sg ! 3) + unat (sg ! (5 + unat (sg ! 3))) \<noteq> length sg
        \<longrightarrow> ParseDERSignature sg = Inl ErrSigInvalidSLen)
   \<and> (\<forall>L t1 rl R t2 sl S.
          der_header sg \<and> sg = [0x30, L, t1, rl] @ R @ [t2, sl] @ S
          \<and> unat rl = length R \<and> unat sl = length S
        \<longrightarrow> ParseDERSignature sg = der_decode t1 R t2 S)
   \<and> (\<forall>R S. der_frame sg R S \<and> big_SetBytes R = curveN
        \<longrightarrow> ParseDERSignature sg = Inl ErrSigRTooBig)"
proof (intro conjI allI impI)
  show "(\<exists>x. ParseDERSignature sg = Inr x) \<longleftrightarrow> der_wellformed sg"
    by (rule parse_accepts_iff)
  show "ParseDERSignature sg = Inl ErrSigTooShort" if "length sg < 8"
    using that by (rule parse_early(1))
  show "ParseDERSignature sg = Inl ErrSigTooLong" if "72 < length sg"
    using that by (rule parse_early(2))
  show "ParseDERSignature sg = Inl ErrSigInvalidSeqID"
    if "8 \<le> length sg \<and> length sg \<le> 72 \<and> sg ! 0 \<noteq> 0x30"
    using that parse_early(3) [of sg] by blast
  show "ParseDERSignature sg = Inl ErrSigInvalidDataLen"
    if "8 \<le> length sg \<and> length sg \<le> 72 \<and> sg ! 0 = 0x30 \<and> unat (sg ! 1) \<noteq> length sg - 2"
    using that parse_early(4) [of sg] by blast
  show "ParseDERSignature sg = Inl ErrSigMissingSTypeID"
    if "der_header sg \<and> length sg \<le> 4 + unat (sg ! 3)"
    using that parse_missing(1) [of sg] by blast
  show "ParseDERSignature sg = Inl ErrSigMissingSLen"
    if "der_header sg \<and> length sg = 5 + unat (sg ! 3)"
    using that parse_missing(2) [of sg] by blast
  show "ParseDERSignature sg = Inl ErrSigInvalidSLen"
    if "der_header sg \<and> 5 + unat (sg ! 3) < length sg
          \<and> 6 + unat (sg ! 3) + unat (sg ! (5 + unat (sg ! 3))) \<noteq> length sg"
    using that parse_missing(3) [of sg] by blast
  show "ParseDERSignature sg = der_decode t1 R t2 S"
    if "der_header sg \<and> sg = [0x30, L, t1, rl] @ R @ [t2, sl] @ S
          \<and> unat rl = length R \<and> unat sl = length S"
    for L t1 rl R t2 sl S
  proof -
    from that have f: "sg = [0x30, L, t1, rl] @ R @ [t2, sl] @ S"
      and l: "unat rl = length R" "unat sl = length S" and h: "der_header sg"
      by blast+
    have "sg ! 1 = L" by (rule frame_nth(2) [OF f])
    with h have "8 \<le> length sg" "length sg \<le> 72" "unat L = length sg - 2"
      by (simp_all add: der_header_def)
    then show ?thesis
      using parse_framed [OF f l] by simp
  qed
  show "ParseDERSignature sg = Inl ErrSigRTooBig"
    if "der_frame sg R S \<and> big_SetBytes R = curveN" for R S
    using that der_frame_parse [of sg R S] by simp
qed

theorem ParseDERSignature_checks_witness:
  "der_frame sigRequalsN sigRequalsN_R sigRequalsN_S
   \<and> big_SetBytes sigRequalsN_R = curveN
   \<and> ParseDERSignature sigRequalsN = Inl ErrSigRTooBig"
proof -
  have l: "length sigRequalsN = 71" "length sigRequalsN_R = 33" "length sigRequalsN_S = 32"
    by (simp_all add: sigRequalsN_def sigRequalsN_R_def sigRequalsN_S_def)
  have e: "sigRequalsN = [0x30, 0x45, 0x02, 0x21] @ sigRequalsN_R @ [0x02, 0x20] @ sigRequalsN_S"
    by (simp add: sigRequalsN_def sigRequalsN_R_def sigRequalsN_S_def)
  have ok: "der_int_ok sigRequalsN_R" "der_int_ok sigRequalsN_S"
    by (simp_all add: sigRequalsN_R_def sigRequalsN_S_def der_int_ok_def der_padded_def)
  have f: "der_frame sigRequalsN sigRequalsN_R sigRequalsN_S"
    unfolding der_frame_def l using e ok by simp
  have v: "big_SetBytes sigRequalsN_R = curveN"
    by (simp add: sigRequalsN_R_def big_SetBytes_def curveN_def)
  from ParseDERSignature_checks [of sigRequalsN] f v show ?thesis
    by blast
qed

text \<open>
  C3.  For every signature with r and s in \<open>[1, n - 1]\<close>, \<open>Serialize\<close> emits a
  well-formed DER signature whose R field encodes r and whose S field encodes the
  low-S form of s (\<open>n - s\<close> in place of s if \<open>s > n/2\<close>, which is \<open>min s (n - s)\<close>),
  and \<open>ParseDERSignature\<close> of the serialized bytes succeeds with the signature
  \<open>(r, min s (n - s))\<close>.
\<close>

theorem Serialize_Parse_roundtrip:
  assumes "1 \<le> sig_r sg" "sig_r sg < curveN" "1 \<le> sig_s sg" "sig_s sg < curveN"
  shows "(\<exists>R S. der_frame (Serialize sg) R S \<and> big_SetBytes R = sig_r sg
            \<and> big_SetBytes S = (if curveN div 2 < sig_s sg then curveN - sig_s sg else sig_s sg))
       \<and> (if curveN div 2 < sig_s sg then curveN - sig_s sg else sig_s sg)
           = min (sig_s sg) (curveN - sig_s sg)
       \<and> ParseDERSignature (Serialize sg)
           = Inr \<lparr> sig_r = sig_r sg, sig_s = min (sig_s sg) (curveN - sig_s sg), sig_v = 0xff \<rparr>"
proof -
  from Serialize_frame [OF assms]
  obtain R S where f: "der_frame (Serialize sg) R S" and R: "big_SetBytes R = sig_r sg"
    and S: "big_SetBytes S = min (sig_s sg) (curveN - sig_s sg)"
    by blast
  have m: "(if curveN div 2 < sig_s sg then curveN - sig_s sg else sig_s sg)
           = min (sig_s sg) (curveN - sig_s sg)"
    using curveN_odd by (auto simp add: min_def)
  have c: "\<not> curveN \<le> big_SetBytes R" "big_SetBytes R \<noteq> 0"
    "\<not> curveN \<le> big_SetBytes S" "big_SetBytes S \<noteq> 0"
    unfolding R S using assms by (auto simp add: min_def)
  have "ParseDERSignature (Serialize sg)
           = Inr \<lparr> sig_r = big_SetBytes R, sig_s = big_SetBytes S, sig_v = 0xff \<rparr>"
    unfolding der_frame_parse [OF f] using c by (simp only: if_False)
  then have "ParseDERSignature (Serialize sg)
           = Inr \<lparr> sig_r = sig_r sg, sig_s = min (sig_s sg) (curveN - sig_s sg), sig_v = 0xff \<rparr>"
    unfolding R S .
  with f R S m show ?thesis by auto
qed

theorem Serialize_Parse_roundtrip_witness:
  "1 \<le> sig_r sigHighS \<and> sig_r sigHighS < curveN \<and> 1 \<le> sig_s sigHighS \<and> sig_s sigHighS < curveN
   \<and> curveN div 2 < sig_s sigHighS
   \<and> ParseDERSignature (Serialize sigHighS)
       = Inr \<lparr> sig_r = 0x1cadddc2838598fee7dc35a12b340c6bde8b389f7bfd19a1252a17c4b5ed2d71,
               sig_s = 0x3e5dae44134eb4fa757428809a2178199e66f38daa53df51eaa380cab4222b95,
               sig_v = 0xff \<rparr>"
proof -
  have h: "1 \<le> sig_r sigHighS" "sig_r sigHighS < curveN" "1 \<le> sig_s sigHighS"
    "sig_s sigHighS < curveN"
    by (simp_all add: sigHighS_def curveN_def)
  have o: "curveN div 2 < sig_s sigHighS"
    by (simp add: sigHighS_def curveN_def)
  have m: "min (sig_s sigHighS) (curveN - sig_s sigHighS)
      = 0x3e5dae44134eb4fa757428809a2178199e66f38daa53df51eaa380cab4222b95"
    by (simp add: sigHighS_def curveN_def)
  have r: "sig_r sigHighS = 0x1cadddc2838598fee7dc35a12b340c6bde8b389f7bfd19a1252a17c4b5ed2d71"
    by (simp add: sigHighS_def)
  from Serialize_Parse_roundtrip [OF h] have
    "ParseDERSignature (Serialize sigHighS)
       = Inr \<lparr> sig_r = sig_r sigHighS, sig_s = min (sig_s sigHighS) (curveN - sig_s sigHighS),
               sig_v = 0xff \<rparr>"
    by blast
  with h o show ?thesis
    unfolding m r by blast
qed

text \<open>
  C10.  In all cases \<open>ExportCompact\<close> emits 65 bytes whose R and S fields are the
  32-byte big-endian encodings of the stored r and s.  For a signature whose s exceeds
  \<open>n/2\<close> and whose recovery code is in \<open>[0, 3]\<close>, the recovery-code byte is
  \<open>offset + (v XOR 1)\<close>, with its oddness bit flipped, while the S field still encodes
  the original high s, which differs from its negation \<open>n - s\<close>.
\<close>

theorem ExportCompact_fields:
  "take 32 (drop 1 (ExportCompact sg True off)) = ModNScalar_PutBytesUnchecked (sig_r sg)
   \<and> take 32 (drop 33 (ExportCompact sg True off)) = ModNScalar_PutBytesUnchecked (sig_s sg)
   \<and> take 32 (ExportCompact sg False off) = ModNScalar_PutBytesUnchecked (sig_r sg)
   \<and> take 32 (drop 32 (ExportCompact sg False off)) = ModNScalar_PutBytesUnchecked (sig_s sg)
   \<and> length (ExportCompact sg True off) = 65 \<and> length (ExportCompact sg False off) = 65
   \<and> (curveN div 2 < sig_s sg \<and> sig_s sg < curveN \<and> sig_v sg \<le> 3 \<longrightarrow>
        ExportCompact sg True off ! 0 = off + (sig_v sg XOR 1)
      \<and> ExportCompact sg False off ! 64 = off + (sig_v sg XOR 1)
      \<and> big_SetBytes (take 32 (drop 33 (ExportCompact sg True off))) = sig_s sg
      \<and> big_SetBytes (take 32 (drop 32 (ExportCompact sg False off))) = sig_s sg
      \<and> sig_s sg \<noteq> ModNScalar_Negate (sig_s sg))"
proof -
  define rb where "rb = ModNScalar_PutBytesUnchecked (sig_r sg)"
  define sb where "sb = ModNScalar_PutBytesUnchecked (sig_s sg)"
  define vv where "vv = (if ModNScalar_IsOverHalfOrder (sig_s sg)
                          then sig_v sg XOR 0x01 else sig_v sg)"
  have lr: "length rb = 32" and ls: "length sb = 32"
    by (simp_all add: rb_def sb_def ModNScalar_PutBytesUnchecked_def be_bytes_length)
  have t: "ExportCompact sg True off = [vv + off] @ rb @ sb"
    and f: "ExportCompact sg False off = rb @ sb @ [vv + off]"
    by (simp_all add: ExportCompact_def Let_def rb_def sb_def vv_def)
  have fields: "take 32 (drop 1 (ExportCompact sg True off)) = rb"
    "take 32 (drop 33 (ExportCompact sg True off)) = sb"
    "take 32 (ExportCompact sg False off) = rb"
    "take 32 (drop 32 (ExportCompact sg False off)) = sb"
    "length (ExportCompact sg True off) = 65" "length (ExportCompact sg False off) = 65"
    "ExportCompact sg True off ! 0 = vv + off"
    "ExportCompact sg False off ! 64 = vv + off"
    unfolding t f using lr ls by (simp_all add: nth_append)
  have hi: "vv + off = off + (sig_v sg XOR 1) \<and> big_SetBytes sb = sig_s sg
      \<and> sig_s sg \<noteq> ModNScalar_Negate (sig_s sg)"
    if h: "curveN div 2 < sig_s sg" "sig_s sg < curveN"
  proof -
    have pos: "1 \<le> sig_s sg" using h(1) curveN_pos by (simp add: curveN_def)
    have "sig_s sg < 256 ^ 32" using h(2) curveN_lt by linarith
    with pos have "big_SetBytes sb = sig_s sg"
      by (simp add: sb_def ModNScalar_PutBytesUnchecked_def be_bytes_value)
    moreover have "ModNScalar_Negate (sig_s sg) \<le> curveN div 2"
      using low_s(4) [OF pos h(2)] h(1) by (simp add: ModNScalar_IsOverHalfOrder_def)
    ultimately show ?thesis
      using h(1) by (simp add: vv_def ModNScalar_IsOverHalfOrder_def add.commute)
  qed
  note fl = fields [unfolded rb_def sb_def]
  show ?thesis
  proof (intro conjI impI)
    assume h: "curveN div 2 < sig_s sg \<and> sig_s sg < curveN \<and> sig_v sg \<le> 3"
    then have hh: "vv + off = off + (sig_v sg XOR 1)"
      "big_SetBytes (ModNScalar_PutBytesUnchecked (sig_s sg)) = sig_s sg"
      "sig_s sg \<noteq> ModNScalar_Negate (sig_s sg)"
      using hi unfolding sb_def by blast+
    show "ExportCompact sg True off ! 0 = off + (sig_v sg XOR 1)"
      by (simp only: fl(7) hh(1))
    show "ExportCompact sg False off ! 64 = off + (sig_v sg XOR 1)"
      by (simp only: fl(8) hh(1))
    show "big_SetBytes (take 32 (drop 33 (ExportCompact sg True off))) = sig_s sg"
      by (simp only: fl(2) hh(2))
    show "big_SetBytes (take 32 (drop 32 (ExportCompact sg False off))) = sig_s sg"
      by (simp only: fl(4) hh(2))
    show "sig_s sg \<noteq> ModNScalar_Negate (sig_s sg)" by (rule hh(3))
  qed (rule fl)+
qed

theorem ExportCompact_fields_witness:
  "curveN div 2 < sig_s sigHighS \<and> sig_s sigHighS < curveN \<and> sig_v sigHighS \<le> 3
   \<and> ExportCompact sigHighS True 27 ! 0 = 27
   \<and> big_SetBytes (take 32 (drop 33 (ExportCompact sigHighS True 27))) = sig_s sigHighS"
proof -
  have h: "curveN div 2 < sig_s sigHighS" "sig_s sigHighS < curveN" "sig_v sigHighS \<le> 3"
    by (simp_all add: sigHighS_def curveN_def)
  have v: "(27::byte) + (sig_v sigHighS XOR 1) = 27"
    by (simp add: sigHighS_def)
  from ExportCompact_fields [of sigHighS 27] h
  have a: "ExportCompact sigHighS True 27 ! 0 = 27 + (sig_v sigHighS XOR 1)"
    and b: "big_SetBytes (take 32 (drop 33 (ExportCompact sigHighS True 27))) = sig_s sigHighS"
    by blast+
  from a have "ExportCompact sigHighS True 27 ! 0 = 27"
    unfolding v .
  with h b show ?thesis
    by blast
qed

end
